theory Spec2Isabelle
  imports
    Complex_Main
    "HOL-Library.Char_ord"
    "HOL-Library.List_Lexorder"
    "HOL-Library.Product_Lexorder"
    "HOL-Library.Multiset"
begin

section \<open>Card tokens (rummy\_engine.py, module constants and parse\_card)\<close>

text \<open>
  A parsed card is the tuple \<open>(rank_val, suit)\<close> that \<open>parse_card\<close> returns: the rank
  as its value in \<open>RANK_VALUES\<close> (A = 1 ... K = 13) and the suit as its string.
  Python strings are modelled as \<open>string\<close>; a \<open>char\<close> stands for a code point below 256.
  Strings and tuples are ordered as Python orders them: strings lexicographically by
  code point, tuples lexicographically by component.
\<close>

type_synonym card = "nat \<times> string"

definition SUITS :: "string list" where
  "SUITS = [''hearts'', ''diamonds'', ''clubs'', ''spades'']"

definition RANKS :: "string list" where
  "RANKS = ''A'' # ''2'' # ''3'' # ''4'' # ''5'' # ''6'' # ''7'' # ''8'' # ''9'' # ''10'' #
           ''J'' # ''Q'' # ''K'' # []"

text \<open>\<open>RANK_VALUES = {r: i+1 for i, r in enumerate(RANKS)}\<close>\<close>

definition RANK_VALUES :: "string \<rightharpoonup> nat" where
  "RANK_VALUES = map_of (map (\<lambda>(i, r). (r, i + 1)) (enumerate 0 RANKS))"

text \<open>
  \<open>DEADWOOD_VALUES = {r: min(i+1, 10) for i, r in enumerate(RANKS)}\<close>, followed by the
  four assignments for J, Q, K and A.
\<close>

definition DEADWOOD_VALUES :: "string \<rightharpoonup> int" where
  "DEADWOOD_VALUES =
     (map_of (map (\<lambda>(i, r). (r, int (min (i + 1) 10))) (enumerate 0 RANKS)))
       (''J'' \<mapsto> 10, ''Q'' \<mapsto> 10, ''K'' \<mapsto> 10, ''A'' \<mapsto> 1)"

text \<open>
  \<open>str.split(sep)\<close> for a one-character separator: the pieces between the
  occurrences of \<open>sep\<close>; always at least one piece.
\<close>

fun str_split :: "char \<Rightarrow> string \<Rightarrow> string list" where
  "str_split sep [] = [[]]"
| "str_split sep (c # cs) =
     (if c = sep then [] # str_split sep cs
      else (case str_split sep cs of
              [] \<Rightarrow> [[c]]
            | p # ps \<Rightarrow> (c # p) # ps))"

text \<open>
  \<open>str.strip()\<close> removes leading and trailing whitespace; below code point 256 the
  characters with \<open>str.isspace()\<close> are 9-13, 28-32, 133 and 160.
\<close>

definition is_space :: "char \<Rightarrow> bool" where
  "is_space c = ((of_char c :: nat) \<in> {9, 10, 11, 12, 13, 28, 29, 30, 31, 32, 133, 160})"

definition str_strip :: "string \<Rightarrow> string" where
  "str_strip s = rev (dropWhile is_space (rev (dropWhile is_space s)))"

text \<open>
  \<open>parse_card\<close>: \<open>None\<close> unless the token splits at \<open>-\<close> into exactly two parts whose
  stripped forms are a rank of \<open>RANK_VALUES\<close> and a suit of \<open>SUITS\<close>.
\<close>

definition parse_card :: "string \<Rightarrow> card option" where
  "parse_card card_str =
     (case str_split CHR ''-'' card_str of
        [p0, p1] \<Rightarrow>
          (let rank = str_strip p0;
               suit = str_strip p1;
               rank_val = (case RANK_VALUES rank of Some v \<Rightarrow> v | None \<Rightarrow> 0)
           in if rank_val = 0 \<or> suit \<notin> set SUITS then None else Some (rank_val, suit))
      | _ \<Rightarrow> None)"

text \<open>\<open>build_deck\<close>: outer loop over \<open>SUITS\<close>, inner loop over \<open>RANKS\<close>, token \<open>f"{r}-{s}"\<close>.\<close>

definition build_deck :: "string list" where
  "build_deck = concat (map (\<lambda>s. map (\<lambda>r. r @ ''-'' @ s) RANKS) SUITS)"

text \<open>
  The rendering of a parsed card back to its token: the rank string is
  \<open>RANKS[rank_val - 1]\<close> (as \<open>calculate_deadwood\<close> and \<open>validate_card\<close> recover it), joined
  to the suit as \<open>build_deck\<close> joins them.
\<close>

definition format_card :: "card \<Rightarrow> string" where
  "format_card c = (RANKS ! (fst c - 1)) @ ''-'' @ snd c"

section \<open>Meld detection (find\_melds)\<close>

text \<open>
  \<open>sorted(enumerate(parsed_hand), key=lambda x: (x[1][0], x[1][1]))\<close>: the indexed cards
  in ascending order of (rank, suit), the suit compared as a string. Python's sort is
  stable, and so is \<open>sort_key\<close>.
\<close>

definition sorted_hand :: "card list \<Rightarrow> (nat \<times> card) list" where
  "sorted_hand parsed_hand =
     sort_key (\<lambda>x. (fst (snd x), snd (snd x))) (enumerate 0 parsed_hand)"

text \<open>
  A \<open>collections.defaultdict(list)\<close> as an association list in insertion order of its
  keys (the order in which \<open>.items()\<close> yields them): \<open>d[k].append(v)\<close>.
\<close>

fun dict_append :: "'k \<Rightarrow> 'v \<Rightarrow> ('k \<times> 'v list) list \<Rightarrow> ('k \<times> 'v list) list" where
  "dict_append k v [] = [(k, [v])]"
| "dict_append k v ((k', vs) # d) =
     (if k' = k then (k', vs @ [v]) # d else (k', vs) # dict_append k v d)"

definition rank_groups :: "(nat \<times> card) list \<Rightarrow> (nat \<times> (nat \<times> string) list) list" where
  "rank_groups sh =
     foldl (\<lambda>d (idx, (rank, suit)). dict_append rank (idx, suit) d) [] sh"

text \<open>
  The inner loop of phase 1 over the cards of one rank: a card whose suit is not yet
  used is appended to \<open>set_cards\<close>; the loop breaks once four cards are collected.
\<close>

fun collect_set ::
  "nat \<Rightarrow> (nat \<times> string) list \<Rightarrow> string set \<Rightarrow> (nat \<times> card) list \<Rightarrow> (nat \<times> card) list" where
  "collect_set rank [] used_suits set_cards = set_cards"
| "collect_set rank ((idx, suit) # cards) used_suits set_cards =
     (if suit \<notin> used_suits then
        (let set_cards' = set_cards @ [(idx, (rank, suit))];
             used_suits' = insert suit used_suits
         in if length set_cards' \<ge> 4 then set_cards'
            else collect_set rank cards used_suits' set_cards')
      else collect_set rank cards used_suits set_cards)"

text \<open>
  One iteration of \<open>for rank, cards in rank_groups.items()\<close>, on the pair
  \<open>(matched_indices, melds)\<close>.
\<close>

definition set_step ::
  "nat set \<times> card list list \<Rightarrow> nat \<times> (nat \<times> string) list \<Rightarrow> nat set \<times> card list list" where
  "set_step st g =
     (case st of (matched_indices, melds) \<Rightarrow>
      case g of (rank, cards) \<Rightarrow>
        if length cards \<ge> 3 then
          (let suits_in_set = set (map snd cards) in
           if card suits_in_set \<ge> 3 then
             (let set_cards = collect_set rank cards {} [] in
              if length set_cards \<ge> 3
              then (matched_indices \<union> set (map fst set_cards), melds @ [map snd set_cards])
              else (matched_indices, melds))
           else (matched_indices, melds))
        else (matched_indices, melds))"

definition find_sets :: "(nat \<times> card) list \<Rightarrow> nat set \<times> card list list" where
  "find_sets sh = foldl set_step ({}, []) (rank_groups sh)"

text \<open>
  Phase 2 groups by suit the cards whose index phase 1 left unmatched
  (\<open>suit_groups[suit].append((idx, rank))\<close>).
\<close>

definition suit_groups ::
  "(nat \<times> card) list \<Rightarrow> nat set \<Rightarrow> (string \<times> (nat \<times> nat) list) list" where
  "suit_groups sh matched_indices =
     foldl (\<lambda>d (idx, (rank, suit)).
              if idx \<notin> matched_indices then dict_append suit (idx, rank) d else d) [] sh"

text \<open>
  The scan \<open>for i in range(1, len(cards))\<close>: \<open>prev\<close> is \<open>cards[i-1]\<close>, the list is
  \<open>cards[i:]\<close>; the equation for the empty list is the flush after the loop.
\<close>

fun scan_sequences ::
  "(nat \<times> nat) \<Rightarrow> (nat \<times> nat) list \<Rightarrow> (nat \<times> nat) list \<Rightarrow> (nat \<times> nat) list list
     \<Rightarrow> (nat \<times> nat) list list" where
  "scan_sequences prev [] current_seq sequences =
     (if length current_seq \<ge> 3 then sequences @ [current_seq] else sequences)"
| "scan_sequences prev (c # cs) current_seq sequences =
     (if snd c = snd prev + 1 then scan_sequences c cs (current_seq @ [c]) sequences
      else scan_sequences c cs [c]
             (if length current_seq \<ge> 3 then sequences @ [current_seq] else sequences))"

text \<open>One iteration of \<open>for suit, cards in suit_groups.items()\<close>.\<close>

definition run_step ::
  "nat set \<times> card list list \<Rightarrow> string \<times> (nat \<times> nat) list \<Rightarrow> nat set \<times> card list list" where
  "run_step st g =
     (case g of (suit, cards0) \<Rightarrow>
        if length cards0 < 3 then st
        else
          (let cards = sort_key snd cards0;
               sequences = scan_sequences (hd cards) (tl cards) [hd cards] []
           in foldl (\<lambda>(matched_indices, melds) seq.
                       (let run_cards = map (\<lambda>(idx, rank). (idx, (rank, suit))) seq
                        in (matched_indices \<union> set (map fst run_cards),
                            melds @ [map snd run_cards])))
                st sequences))"

definition find_runs ::
  "(nat \<times> card) list \<Rightarrow> nat set \<times> card list list \<Rightarrow> nat set \<times> card list list" where
  "find_runs sh st = foldl run_step st (suit_groups sh (fst st))"

definition find_melds :: "card list \<Rightarrow> nat set \<times> card list list" where
  "find_melds parsed_hand =
     (if parsed_hand = [] then ({}, [])
      else (let sh = sorted_hand parsed_hand in find_runs sh (find_sets sh)))"

text \<open>The melds of each phase, for the statements about one phase.\<close>

definition set_melds :: "card list \<Rightarrow> card list list" where
  "set_melds parsed_hand = snd (find_sets (sorted_hand parsed_hand))"

definition run_melds :: "card list \<Rightarrow> card list list" where
  "run_melds parsed_hand =
     snd (find_runs (sorted_hand parsed_hand)
            (fst (find_sets (sorted_hand parsed_hand)), []))"

section \<open>Deadwood (calculate\_deadwood)\<close>

text \<open>
  \<open>DEADWOOD_VALUES.get(RANKS[rank - 1], 10)\<close>. The ranks that reach it come from
  \<open>parse_card\<close>, hence lie in 1..13 and the index is in range.
\<close>

definition card_points :: "nat \<Rightarrow> int" where
  "card_points rank =
     (case DEADWOOD_VALUES (RANKS ! (rank - 1)) of Some v \<Rightarrow> v | None \<Rightarrow> 10)"

text \<open>
  The score is a Python float that only ever holds a sum of at most a few small
  integers, so it is modelled as an \<open>int\<close>.
\<close>

definition calculate_deadwood :: "string list \<Rightarrow> int" where
  "calculate_deadwood hand =
     (let parsed_hand = List.map_filter parse_card hand in
      if parsed_hand = [] then 0
      else
        (let matched_indices = fst (find_melds parsed_hand)
         in foldl (\<lambda>score (i, (rank, suit)).
                     if i \<notin> matched_indices then score + card_points rank else score)
              0 (enumerate 0 parsed_hand)))"

text \<open>
  The per-rank value as the specification words it: A = 1, 2..9 their face value,
  10, J, Q and K ten each (by rank string).
\<close>

definition DeadwoodValue :: "string \<Rightarrow> int" where
  "DeadwoodValue r =
     (if r = ''A'' then 1
      else if r = ''2'' then 2 else if r = ''3'' then 3 else if r = ''4'' then 4
      else if r = ''5'' then 5 else if r = ''6'' then 6 else if r = ''7'' then 7
      else if r = ''8'' then 8 else if r = ''9'' then 9
      else 10)"

section \<open>Monte Carlo simulation (simulate\_game)\<close>

text \<open>
  \<open>simulate_game\<close> has no parameter for a random source: it calls \<open>random.shuffle\<close>,
  which reads and advances the generator that Python's \<open>random\<close> module keeps for the
  whole process. The model threads that generator's state \<open>'g\<close> through the call and
  takes the library's \<open>shuffle\<close> as a parameter: from a generator state and a list it
  gives the shuffled list and the next state.
\<close>

type_synonym 'g shuffle = "'g \<Rightarrow> string list \<Rightarrow> string list \<times> 'g"

datatype error =
    InvalidCardFormat "string list"
  | DuplicateCard
  | DeckExhausted
  | ZeroDivisionError
  | InternalError

text \<open>
  The loop \<open>for card_to_try_discarding in current_hand\<close>. \<open>None\<close> stands for the start
  \<open>(float('inf'), None)\<close>, which every deadwood is below; afterwards a candidate
  replaces the best one only when its deadwood is strictly smaller.
\<close>

fun try_discards :: "string list \<Rightarrow> string list \<Rightarrow> (int \<times> string) option \<Rightarrow> (int \<times> string) option" where
  "try_discards current_hand [] best = best"
| "try_discards current_hand (card_to_try_discarding # cs) best =
     (let test_hand = filter (\<lambda>c. c \<noteq> card_to_try_discarding) current_hand;
          dw = calculate_deadwood test_hand
      in try_discards current_hand cs
           (case best of
              None \<Rightarrow> Some (dw, card_to_try_discarding)
            | Some (best_after_draw, best_discard_card) \<Rightarrow>
                if dw < best_after_draw then Some (dw, card_to_try_discarding)
                else Some (best_after_draw, best_discard_card)))"

text \<open>
  One draw, on \<open>(current_hand, best_deadwood, improvements)\<close>. The test
  \<open>best_after_draw < best_deadwood and best_discard_card\<close> also asks the card string to
  be truthy, that is, not empty. \<open>list.remove\<close> deletes the first occurrence.
\<close>

definition draw_step ::
  "int \<Rightarrow> string list \<times> int \<times> nat \<Rightarrow> string \<Rightarrow> string list \<times> int \<times> nat" where
  "draw_step initial_deadwood st drawn =
     (case st of (current_hand0, best_deadwood, improvements) \<Rightarrow>
        (let current_hand = current_hand0 @ [drawn] in
         case try_discards current_hand current_hand None of
           Some (best_after_draw, best_discard_card) \<Rightarrow>
             if best_after_draw < best_deadwood \<and> best_discard_card \<noteq> [] then
               (filter (\<lambda>c. c \<noteq> best_discard_card) current_hand,
                best_after_draw,
                if best_after_draw < initial_deadwood then improvements + 1 else improvements)
             else (remove1 drawn current_hand, best_deadwood, improvements)
         | None \<Rightarrow> (remove1 drawn current_hand, best_deadwood, improvements)))"

text \<open>
  One trial on the shuffled \<open>deck_copy\<close>: the draws are
  \<open>deck_copy[0 .. min(max_draws, len(deck_copy)) - 1]\<close>. It returns the trial's
  \<open>best_deadwood\<close> and the running \<open>improvements\<close> counter.
\<close>

definition run_trial :: "string list \<Rightarrow> int \<Rightarrow> int \<Rightarrow> nat \<Rightarrow> string list \<Rightarrow> int \<times> nat" where
  "run_trial hand initial_deadwood max_draws improvements deck_copy =
     (let draws = take (nat (min max_draws (int (length deck_copy)))) deck_copy;
          st = foldl (draw_step initial_deadwood) (hand, initial_deadwood, improvements) draws
      in (fst (snd st), snd (snd st)))"

text \<open>
  \<open>for _ in range(trials)\<close> on \<open>(total_deadwood, improvements)\<close> and the generator
  state; the first argument counts the iterations left.
\<close>

fun trials_loop ::
  "'g shuffle \<Rightarrow> string list \<Rightarrow> string list \<Rightarrow> int \<Rightarrow> int \<Rightarrow> nat \<Rightarrow> int \<times> nat \<times> 'g
     \<Rightarrow> int \<times> nat \<times> 'g" where
  "trials_loop shuffle hand unknown_deck max_draws initial_deadwood 0 st = st"
| "trials_loop shuffle hand unknown_deck max_draws initial_deadwood (Suc n) st =
     (case st of (total_deadwood, improvements, g) \<Rightarrow>
      case shuffle g unknown_deck of (deck_copy, g') \<Rightarrow>
      case run_trial hand initial_deadwood max_draws improvements deck_copy of
        (best_deadwood, improvements') \<Rightarrow>
          trials_loop shuffle hand unknown_deck max_draws initial_deadwood n
            (total_deadwood + best_deadwood, improvements', g'))"

text \<open>
  \<open>simulate_game\<close>. \<open>trials\<close> and \<open>max_draws\<close> are Python ints; \<open>range\<close> of a negative
  number is empty, and the two final divisions raise \<open>ZeroDivisionError\<close> when
  \<open>trials\<close> is 0. The two float quotients are modelled by the exact quotients.
\<close>

definition simulate_game ::
  "'g shuffle \<Rightarrow> string list \<Rightarrow> string list \<Rightarrow> int \<Rightarrow> int \<Rightarrow> 'g \<Rightarrow> (error + rat \<times> rat) \<times> 'g" where
  "simulate_game shuffle hand unknown_deck trials max_draws g =
     (if unknown_deck = [] then (Inr (of_int (calculate_deadwood hand), 0), g)
      else
        (let initial_deadwood = calculate_deadwood hand in
         case trials_loop shuffle hand unknown_deck max_draws initial_deadwood (nat trials)
                (0, 0, g) of
           (total_deadwood, improvements, g') \<Rightarrow>
             if trials = 0 then (Inl ZeroDivisionError, g')
             else (Inr (of_int total_deadwood / of_int trials,
                        of_nat improvements / of_int trials), g')))"

text \<open>
  The decks that \<open>n\<close> consecutive shuffles of \<open>unknown_deck\<close> yield from generator
  state \<open>g\<close>: the draw orders of \<open>n\<close> trials.
\<close>

fun draw_orders :: "'g shuffle \<Rightarrow> string list \<Rightarrow> nat \<Rightarrow> 'g \<Rightarrow> string list list" where
  "draw_orders shuffle unknown_deck 0 g = []"
| "draw_orders shuffle unknown_deck (Suc n) g =
     fst (shuffle g unknown_deck) # draw_orders shuffle unknown_deck n (snd (shuffle g unknown_deck))"

text \<open>
  A small generator to run the model on: the state is a counter, a shuffle rotates
  the list by the counter and increments it.
\<close>

definition rotate_shuffle :: "nat shuffle" where
  "rotate_shuffle g xs = (rotate g xs, g + 1)"

section \<open>Discard advice (get\_confidence\_level, suggest\_discard)\<close>

definition get_confidence_level :: "rat \<Rightarrow> int \<Rightarrow> string" where
  "get_confidence_level prob trials =
     (if trials \<ge> 500 then
        (if prob \<ge> 7 / 10 then ''high'' else if prob \<ge> 4 / 10 then ''medium'' else ''low'')
      else if trials \<ge> 200 then
        (if prob \<ge> 75 / 100 then ''high'' else if prob \<ge> 45 / 100 then ''medium'' else ''low'')
      else
        (if prob \<ge> 8 / 10 then ''high'' else if prob \<ge> 5 / 10 then ''medium'' else ''low''))"

record SuggestRequest =
  my_hand :: "string list"
  visible :: "string list"
  trials :: int
  max_draws :: int

text \<open>The field \<open>card\<close> of the source is \<open>card_tok\<close> here.\<close>

record DiscardSuggestion =
  card_tok :: string
  win_probability :: rat
  expected_deadwood :: rat
  confidence :: string

record SuggestResponse =
  suggestions :: "DiscardSuggestion list"
  current_deadwood :: rat
  message :: "string option"

text \<open>
  The constraints that the request model declares on its fields; a
  \<open>SuggestRequest\<close> that reaches \<open>suggest_discard\<close> satisfies them.
\<close>

definition request_fields_ok :: "SuggestRequest \<Rightarrow> bool" where
  "request_fields_ok request =
     (1 \<le> length (my_hand request) \<and> length (my_hand request) \<le> 13 \<and>
      50 \<le> trials request \<and> trials request \<le> 2000 \<and>
      1 \<le> max_draws request \<and> max_draws request \<le> 10)"

text \<open>\<open>round(x, 2)\<close>, on exact values: to the nearest hundredth, a tie to the even one.\<close>

definition round2 :: "rat \<Rightarrow> rat" where
  "round2 x =
     (let y = x * 100; f = \<lfloor>y\<rfloor>; d = y - of_int f;
          n = (if d < 1 / 2 then f else if d > 1 / 2 then f + 1
               else if even f then f else f + 1)
      in of_int n / 100)"

text \<open>\<open>unknown_deck = [c for c in full_deck if c not in my_hand_set and c not in visible_set]\<close>\<close>

definition unknown_deck_of :: "string list \<Rightarrow> string list \<Rightarrow> string list" where
  "unknown_deck_of hand vis =
     filter (\<lambda>c. c \<notin> set hand \<and> c \<notin> set vis) build_deck"

text \<open>
  The body of \<open>for card_to_discard in my_hand\<close>: one simulation and one suggestion.
  An exception out of the simulation is caught by \<open>except Exception\<close> and becomes
  the internal error.
\<close>

definition suggest_one ::
  "'g shuffle \<Rightarrow> SuggestRequest \<Rightarrow> string list \<Rightarrow> int \<Rightarrow> string \<Rightarrow> 'g
     \<Rightarrow> (error + DiscardSuggestion) \<times> 'g" where
  "suggest_one shuffle request unknown_deck cur card_to_discard g =
     (let remaining_hand = filter (\<lambda>c. c \<noteq> card_to_discard) (my_hand request) in
      case simulate_game shuffle remaining_hand unknown_deck (trials request)
             (max_draws request) g of
        (Inl e, g') \<Rightarrow> (Inl InternalError, g')
      | (Inr (avg_deadwood, win_prob), g') \<Rightarrow>
          (let normalized_prob =
                 (if cur > 0
                  then win_prob * (1 - min (avg_deadwood / (of_int cur + 1)) 1)
                  else win_prob);
               conf = get_confidence_level normalized_prob (trials request)
           in (Inr \<lparr> card_tok = card_to_discard,
                      win_probability = min (max normalized_prob 0) 1,
                      expected_deadwood = round2 avg_deadwood,
                      confidence = conf \<rparr>, g')))"

fun suggest_loop ::
  "'g shuffle \<Rightarrow> SuggestRequest \<Rightarrow> string list \<Rightarrow> int \<Rightarrow> string list \<Rightarrow> DiscardSuggestion list
     \<Rightarrow> 'g \<Rightarrow> (error + DiscardSuggestion list) \<times> 'g" where
  "suggest_loop shuffle request unknown_deck cur [] results g = (Inr results, g)"
| "suggest_loop shuffle request unknown_deck cur (card_to_discard # cs) results g =
     (case suggest_one shuffle request unknown_deck cur card_to_discard g of
        (Inl e, g') \<Rightarrow> (Inl e, g')
      | (Inr sg, g') \<Rightarrow>
          suggest_loop shuffle request unknown_deck cur cs (results @ [sg]) g')"

text \<open>
  \<open>results.sort(key=lambda x: (x.win_probability, -x.expected_deadwood), reverse=True)\<close>:
  a stable sort in descending key order (Python reverses, sorts stably and reverses).
\<close>

definition sort_results :: "DiscardSuggestion list \<Rightarrow> DiscardSuggestion list" where
  "sort_results results =
     rev (sort_key (\<lambda>x. (win_probability x, - expected_deadwood x)) (rev results))"

definition low_message :: string where
  "low_message =
     ''All discard options show low win probability. Consider your current hand carefully.''"

text \<open>\<open>suggest_discard\<close>, each \<open>HTTPException\<close> as the error it reports.\<close>

definition suggest_discard ::
  "'g shuffle \<Rightarrow> SuggestRequest \<Rightarrow> 'g \<Rightarrow> (error + SuggestResponse) \<times> 'g" where
  "suggest_discard shuffle request g =
     (let hand = my_hand request;
          invalid_cards = filter (\<lambda>c. parse_card c = None) hand
      in if invalid_cards \<noteq> [] then (Inl (InvalidCardFormat invalid_cards), g)
         else if length hand \<noteq> card (set hand) then (Inl DuplicateCard, g)
         else
           (let unknown_deck = unknown_deck_of hand (visible request) in
            if length unknown_deck = 0 then (Inl DeckExhausted, g)
            else
              (let cur = calculate_deadwood hand in
               case suggest_loop shuffle request unknown_deck cur hand [] g of
                 (Inl e, g') \<Rightarrow> (Inl e, g')
               | (Inr results0, g') \<Rightarrow>
                   (let results = sort_results results0;
                        msg = (if length results > 0 \<and> win_probability (hd results) < 3 / 10
                               then Some low_message else None)
                    in (Inr \<lparr> suggestions = results,
                               current_deadwood = round2 (of_int cur),
                               message = msg \<rparr>, g')))))"

section \<open>Notions for the statements about find\_melds\<close>

text \<open>
  The definitions of this section are not functions of the source. They name what its
  loops compute (the indexed cards \<open>set_cards\<close> and \<open>run_cards\<close> that exist only as local
  variables) and the notions the statements are about.
\<close>

text \<open>The grouping that both phases perform: \<open>d[key(x)].append(val(x))\<close> over a list.\<close>

definition group_by :: "('a \<Rightarrow> 'k) \<Rightarrow> ('a \<Rightarrow> 'v) \<Rightarrow> 'a list \<Rightarrow> ('k \<times> 'v list) list" where
  "group_by key val xs = foldl (\<lambda>d x. dict_append (key x) (val x) d) [] xs"

text \<open>
  The indexed melds one iteration adds: the list \<open>set_cards\<close> of the iteration of phase 1
  for one rank group (none when the iteration appends no meld), and the lists
  \<open>run_cards\<close> of the iteration of phase 2 for one suit group.
\<close>

definition set_cards_of :: "nat \<times> (nat \<times> string) list \<Rightarrow> (nat \<times> card) list list" where
  "set_cards_of g =
     (case g of (rank, cards) \<Rightarrow>
        if length cards \<ge> 3 \<and> card (set (map snd cards)) \<ge> 3 \<and>
           length (collect_set rank cards {} []) \<ge> 3
        then [collect_set rank cards {} []] else [])"

definition run_cards_of :: "string \<times> (nat \<times> nat) list \<Rightarrow> (nat \<times> card) list list" where
  "run_cards_of g =
     (case g of (suit, cards0) \<Rightarrow>
        if length cards0 < 3 then []
        else map (map (\<lambda>(idx, rank). (idx, (rank, suit))))
               (scan_sequences (hd (sort_key snd cards0)) (tl (sort_key snd cards0))
                  [hd (sort_key snd cards0)] []))"

text \<open>
  Adding indexed melds to \<open>(matched_indices, melds)\<close>: their indices go to the set,
  their cards to the list.
\<close>

definition add_melds ::
  "nat set \<times> card list list \<Rightarrow> (nat \<times> card) list list \<Rightarrow> nat set \<times> card list list" where
  "add_melds st ims = (fst st \<union> set (map fst (concat ims)), snd st @ map (map snd) ims)"

definition indexed_sets :: "(nat \<times> card) list \<Rightarrow> (nat \<times> card) list list" where
  "indexed_sets sh = concat (map set_cards_of (rank_groups sh))"

definition indexed_runs :: "(nat \<times> card) list \<Rightarrow> nat set \<Rightarrow> (nat \<times> card) list list" where
  "indexed_runs sh M = concat (map run_cards_of (suit_groups sh M))"

definition indexed_melds :: "card list \<Rightarrow> (nat \<times> card) list list" where
  "indexed_melds ph =
     indexed_sets (sorted_hand ph) @
     indexed_runs (sorted_hand ph) (set (map fst (concat (indexed_sets (sorted_hand ph)))))"

text \<open>
  Of a list of \<open>(idx, suit)\<close>, the first entry of each suit that is not in \<open>used\<close>, in
  the order of the list.
\<close>

fun first_per_suit :: "string set \<Rightarrow> (nat \<times> string) list \<Rightarrow> (nat \<times> string) list" where
  "first_per_suit used [] = []"
| "first_per_suit used ((idx, suit) # cards) =
     (if suit \<in> used then first_per_suit used cards
      else (idx, suit) # first_per_suit (insert suit used) cards)"

text \<open>The suits a hand holds of one rank; the cards of one rank group and their set meld.\<close>

definition suits_of_rank :: "card list \<Rightarrow> nat \<Rightarrow> string set" where
  "suits_of_rank ph r = set (map snd (filter (\<lambda>c. fst c = r) ph))"

definition rank_cards :: "(nat \<times> card) list \<Rightarrow> nat \<Rightarrow> (nat \<times> string) list" where
  "rank_cards sh r = map (\<lambda>x. (fst x, snd (snd x))) (filter (\<lambda>x. fst (snd x) = r) sh)"

definition set_cards :: "card list \<Rightarrow> nat \<Rightarrow> (nat \<times> card) list" where
  "set_cards ph r = collect_set r (rank_cards (sorted_hand ph) r) {} []"

text \<open>
  A list of \<open>(idx, rank)\<close> cut into its segments of consecutive ranks: a new segment
  starts wherever a rank is not its predecessor's plus one.
\<close>

fun segs :: "(nat \<times> nat) list \<Rightarrow> (nat \<times> nat) list list" where
  "segs [] = []"
| "segs [c] = [[c]]"
| "segs (c # d # cs) =
     (if snd d = snd c + 1
      then (case segs (d # cs) of [] \<Rightarrow> [[c]] | b # bs \<Rightarrow> (c # b) # bs)
      else [c] # segs (d # cs))"

text \<open>
  \<open>b\<close> is a block of \<open>xs\<close>: a non-empty part of \<open>xs\<close> whose ranks are the interval from
  its first rank on, while \<open>xs\<close> holds neither the rank after the interval nor the
  rank before it.
\<close>

definition rank_block :: "(nat \<times> nat) list \<Rightarrow> (nat \<times> nat) list \<Rightarrow> bool" where
  "rank_block xs b \<longleftrightarrow>
     b \<noteq> [] \<and> set b \<subseteq> set xs \<and>
     map snd b = [snd (hd b)..<snd (hd b) + length b] \<and>
     snd (hd b) + length b \<notin> snd ` set xs \<and>
     (\<forall>r \<in> snd ` set xs. r + 1 \<noteq> snd (hd b))"

text \<open>
  The cards of one suit group of phase 2, the cards that phase 1 left unmatched, and
  the run melds of one suit.
\<close>

definition suit_cards :: "(nat \<times> card) list \<Rightarrow> nat set \<Rightarrow> string \<Rightarrow> (nat \<times> nat) list" where
  "suit_cards sh M s =
     map (\<lambda>x. (fst x, fst (snd x)))
       (filter (\<lambda>x. snd (snd x) = s) (filter (\<lambda>x. fst x \<notin> M) sh))"

definition unmatched_cards :: "card list \<Rightarrow> card list" where
  "unmatched_cards ph =
     map snd (filter (\<lambda>x. fst x \<notin> fst (find_sets (sorted_hand ph))) (sorted_hand ph))"

definition run_cards :: "(nat \<times> card) list \<Rightarrow> nat set \<Rightarrow> string \<Rightarrow> (nat \<times> card) list list" where
  "run_cards sh M s = run_cards_of (s, suit_cards sh M s)"

text \<open>
  The ranks \<open>lo, ..., lo + n - 1\<close> of \<open>suit\<close> are a maximal block of at least three
  consecutive ranks among the cards that phase 1 left unmatched: all of them are
  unmatched cards, and neither \<open>lo + n\<close> nor \<open>lo - 1\<close> of that suit is.
\<close>

definition run_block :: "card list \<Rightarrow> string \<Rightarrow> nat \<Rightarrow> nat \<Rightarrow> bool" where
  "run_block ph suit lo n \<longleftrightarrow>
     3 \<le> n \<and>
     (\<forall>r. lo \<le> r \<and> r < lo + n \<longrightarrow> (r, suit) \<in> set (unmatched_cards ph)) \<and>
     (lo + n, suit) \<notin> set (unmatched_cards ph) \<and>
     (\<forall>r. r + 1 = lo \<longrightarrow> (r, suit) \<notin> set (unmatched_cards ph))"

text \<open>The thirteen hearts, Ace to King.\<close>

definition full_hearts :: "card list" where
  "full_hearts =
     [(1, ''hearts''), (2, ''hearts''), (3, ''hearts''), (4, ''hearts''), (5, ''hearts''),
      (6, ''hearts''), (7, ''hearts''), (8, ''hearts''), (9, ''hearts''), (10, ''hearts''),
      (11, ''hearts''), (12, ''hearts''), (13, ''hearts'')]"

section \<open>Facts about the card codec\<close>

lemma RANK_VALUES_range:
  assumes "RANK_VALUES r = Some v"
  shows "1 \<le> v \<and> v \<le> 13"
  using assms
  by (simp add: RANK_VALUES_def RANKS_def enumerate_eq_zip upt_rec split: if_splits)

lemma parse_card_rank_range:
  assumes "parse_card t = Some (r, s)"
  shows "1 \<le> r \<and> r \<le> 13"
proof -
  from assms obtain p0 where "RANK_VALUES (str_strip p0) = Some r"
    by (auto simp: parse_card_def Let_def split: list.splits option.splits if_splits)
  then show ?thesis by (rule RANK_VALUES_range)
qed

lemma parse_card_suit:
  assumes "parse_card t = Some (r, s)"
  shows "s \<in> set SUITS"
  using assms
  by (auto simp: parse_card_def Let_def split: list.splits option.splits if_splits)

lemma build_deck_tokens:
  "build_deck =
    [''A-hearts'', ''2-hearts'', ''3-hearts'', ''4-hearts'', ''5-hearts'', ''6-hearts'',
     ''7-hearts'', ''8-hearts'', ''9-hearts'', ''10-hearts'', ''J-hearts'', ''Q-hearts'',
     ''K-hearts'',
     ''A-diamonds'', ''2-diamonds'', ''3-diamonds'', ''4-diamonds'', ''5-diamonds'',
     ''6-diamonds'', ''7-diamonds'', ''8-diamonds'', ''9-diamonds'', ''10-diamonds'',
     ''J-diamonds'', ''Q-diamonds'', ''K-diamonds'',
     ''A-clubs'', ''2-clubs'', ''3-clubs'', ''4-clubs'', ''5-clubs'', ''6-clubs'',
     ''7-clubs'', ''8-clubs'', ''9-clubs'', ''10-clubs'', ''J-clubs'', ''Q-clubs'',
     ''K-clubs'',
     ''A-spades'', ''2-spades'', ''3-spades'', ''4-spades'', ''5-spades'', ''6-spades'',
     ''7-spades'', ''8-spades'', ''9-spades'', ''10-spades'', ''J-spades'', ''Q-spades'',
     ''K-spades'']"
  by (simp add: build_deck_def RANKS_def SUITS_def)

lemma parse_canonical:
  assumes "i < 13" and "s \<in> set SUITS"
  shows "parse_card ((RANKS ! i) @ ''-'' @ s) = Some (i + 1, s)"
proof -
  have suit_chars: "CHR ''-'' \<notin> set s" "str_strip s = s"
    using assms(2) by (auto simp: SUITS_def str_strip_def is_space_def)
  have sp: "str_split CHR ''-'' s = [s]"
    using assms(2) by (auto simp: SUITS_def)
  have "i \<in> {0, 1, 2, 3, 4, 5, 6, 7, 8, 9, 10, 11, 12}"
    using assms(1) by (simp; arith)
  then show ?thesis
    using assms(2) suit_chars(2) sp
    by (auto simp: parse_card_def RANKS_def RANK_VALUES_def enumerate_eq_zip upt_rec
        str_strip_def is_space_def Let_def)
qed

lemma format_canonical:
  assumes "i < 13"
  shows "format_card (i + 1, s) = (RANKS ! i) @ ''-'' @ s"
  by (simp add: format_card_def)

lemma build_deck_parses:
  assumes "t \<in> set build_deck"
  shows "\<exists>c. parse_card t = Some c \<and> format_card c = t"
proof -
  have "set build_deck = {r @ ''-'' @ s | r s. r \<in> set RANKS \<and> s \<in> set SUITS}"
    by (auto simp: build_deck_def)
  with assms obtain r s where t: "t = r @ ''-'' @ s" and r: "r \<in> set RANKS"
    and s: "s \<in> set SUITS"
    by auto
  have "length RANKS = 13"
    by (simp add: RANKS_def)
  with r obtain i where i: "i < 13" "r = RANKS ! i"
    by (metis in_set_conv_nth)
  show ?thesis
    using parse_canonical [OF i(1) s] format_canonical [OF i(1), of s] t i(2) by simp
qed

lemmas parse_eval =
  parse_card_def RANK_VALUES_def RANKS_def SUITS_def enumerate_eq_zip upt_rec
  str_strip_def is_space_def Let_def

text \<open>
  C6 (round trip). The deck has 52 pairwise different tokens, they are exactly the
  tokens Rank-Suit for a rank of \<open>RANKS\<close> and a suit of \<open>SUITS\<close>, and on each of them
  \<open>parse_card\<close> succeeds and rendering the parsed card gives the token back.
\<close>

theorem parse_format_round_trip:
  "length build_deck = 52 \<and> distinct build_deck \<and>
   set build_deck = {r @ ''-'' @ s | r s. r \<in> set RANKS \<and> s \<in> set SUITS} \<and>
   (\<forall>t \<in> set build_deck. \<exists>c. parse_card t = Some c \<and> format_card c = t)"
proof -
  have len: "length build_deck = 52"
    by (simp add: build_deck_tokens)
  have dist: "distinct build_deck"
    by (simp add: build_deck_tokens)
  have toks: "set build_deck = {r @ ''-'' @ s | r s. r \<in> set RANKS \<and> s \<in> set SUITS}"
    by (auto simp: build_deck_def)
  from len dist toks build_deck_parses show ?thesis by blast
qed

theorem parse_format_round_trip_witness:
  "''10-diamonds'' \<in> set build_deck \<and>
   parse_card ''10-diamonds'' = Some (10, ''diamonds'') \<and>
   format_card (10, ''diamonds'') = ''10-diamonds''"
proof -
  have mem: "''10-diamonds'' \<in> set build_deck"
    by (simp add: build_deck_tokens)
  from parse_format_round_trip mem
  obtain c where c: "parse_card ''10-diamonds'' = Some c" "format_card c = ''10-diamonds''"
    by blast
  have "parse_card ''10-diamonds'' = Some (10, ''diamonds'')"
    by (simp add: parse_eval)
  with c mem show ?thesis by simp
qed

section \<open>Facts about deadwood\<close>

lemma DEADWOOD_VALUES_pos:
  assumes "DEADWOOD_VALUES k = Some v"
  shows "1 \<le> v"
  using assms
  by (simp add: DEADWOOD_VALUES_def RANKS_def enumerate_eq_zip upt_rec split: if_splits)

lemma card_points_pos: "1 \<le> card_points r"
  using DEADWOOD_VALUES_pos by (auto simp: card_points_def split: option.splits)

lemma card_points_DeadwoodValue:
  assumes "1 \<le> r" and "r \<le> 13"
  shows "card_points r = DeadwoodValue (RANKS ! (r - 1))"
proof -
  have "r \<in> {1, 2, 3, 4, 5, 6, 7, 8, 9, 10, 11, 12, 13}"
    using assms by (simp; arith)
  then show ?thesis
    by (auto simp: card_points_def DeadwoodValue_def DEADWOOD_VALUES_def RANKS_def
        enumerate_eq_zip upt_rec)
qed

lemma score_foldl:
  "foldl (\<lambda>score (i, (rank, suit)). if i \<notin> M then score + card_points rank else score) a xs
   = a + (\<Sum>x\<leftarrow>xs. if fst x \<notin> M then card_points (fst (snd x)) else 0)"
  by (induction xs arbitrary: a) (auto simp: case_prod_beta)

lemma sum_list_enumerate:
  "(\<Sum>x\<leftarrow>enumerate n ys. f (fst x) (snd x)) = (\<Sum>i = 0..<length ys. f (n + i) (ys ! i))"
  by (auto simp: sum_list_sum_nth nth_enumerate_eq intro!: sum.cong)

lemma calculate_deadwood_points:
  "calculate_deadwood hand =
     (\<Sum>i | i < length (List.map_filter parse_card hand) \<and>
            i \<notin> fst (find_melds (List.map_filter parse_card hand)).
        card_points (fst (List.map_filter parse_card hand ! i)))"
proof -
  define ph where "ph = List.map_filter parse_card hand"
  define M where "M = fst (find_melds ph)"
  define w where "w = (\<lambda>i. card_points (fst (ph ! i)))"
  have "(\<Sum>x\<leftarrow>enumerate 0 ph. if fst x \<notin> M then card_points (fst (snd x)) else 0)
      = (\<Sum>i = 0..<length ph. if i \<notin> M then w i else 0)"
    using sum_list_enumerate [of "\<lambda>i c. if i \<notin> M then card_points (fst c) else 0" 0 ph]
    unfolding w_def by simp
  also have "\<dots> = sum w {i \<in> {0..<length ph}. i \<notin> M}"
    by (rule sum.inter_filter [symmetric]) simp
  also have "{i \<in> {0..<length ph}. i \<notin> M} = {i. i < length ph \<and> i \<notin> M}"
    by auto
  finally have main:
    "(\<Sum>x\<leftarrow>enumerate 0 ph. if fst x \<notin> M then card_points (fst (snd x)) else 0)
      = sum w {i. i < length ph \<and> i \<notin> M}" .
  show ?thesis
  proof (cases "ph = []")
    case True
    then show ?thesis
      by (simp add: calculate_deadwood_def ph_def [symmetric] Let_def)
  next
    case False
    then show ?thesis
      using main
      by (simp add: calculate_deadwood_def ph_def [symmetric] M_def [symmetric] Let_def
          score_foldl w_def)
  qed
qed

lemma calculate_deadwood_nonneg: "0 \<le> calculate_deadwood hand"
proof -
  have "0 \<le> card_points r" for r
    using card_points_pos [of r] by linarith
  then show ?thesis
    unfolding calculate_deadwood_points by (intro sum_nonneg) simp
qed

lemma map_filter_parse_range:
  assumes "i < length (List.map_filter parse_card hand)"
  shows "1 \<le> fst (List.map_filter parse_card hand ! i) \<and>
         fst (List.map_filter parse_card hand ! i) \<le> 13"
proof -
  from assms have "List.map_filter parse_card hand ! i \<in> set (List.map_filter parse_card hand)"
    by (rule nth_mem)
  then obtain t where "parse_card t = Some (List.map_filter parse_card hand ! i)"
    by (auto simp: List.map_filter_def)
  then show ?thesis
    using parse_card_rank_range [of t "fst (List.map_filter parse_card hand ! i)"
        "snd (List.map_filter parse_card hand ! i)"]
    by simp
qed

lemma map_filter_parse_filter:
  "List.map_filter parse_card (filter (\<lambda>t. parse_card t \<noteq> None) hand)
     = List.map_filter parse_card hand"
  by (simp add: List.map_filter_def del: not_None_eq)

text \<open>
  C2 (deadwood). The deadwood of a list of tokens is the sum, over the indices of the
  parsed cards that \<open>find_melds\<close> leaves out of its matched set, of the per-rank value
  of the card's rank (A = 1, 2..9 face value, 10/J/Q/K = 10). The empty hand gives 0,
  and tokens that do not parse can be dropped without changing the result.
\<close>

theorem calculate_deadwood_unmatched_sum:
  "calculate_deadwood [] = 0 \<and>
   calculate_deadwood hand = calculate_deadwood (filter (\<lambda>t. parse_card t \<noteq> None) hand) \<and>
   calculate_deadwood hand =
     (\<Sum>i | i < length (List.map_filter parse_card hand) \<and>
            i \<notin> fst (find_melds (List.map_filter parse_card hand)).
        DeadwoodValue (RANKS ! (fst (List.map_filter parse_card hand ! i) - 1)))"
proof -
  have e: "calculate_deadwood [] = 0"
    by (simp add: calculate_deadwood_def List.map_filter_def)
  have f: "calculate_deadwood hand
             = calculate_deadwood (filter (\<lambda>t. parse_card t \<noteq> None) hand)"
    unfolding calculate_deadwood_def map_filter_parse_filter ..
  have s: "calculate_deadwood hand =
     (\<Sum>i | i < length (List.map_filter parse_card hand) \<and>
            i \<notin> fst (find_melds (List.map_filter parse_card hand)).
        DeadwoodValue (RANKS ! (fst (List.map_filter parse_card hand ! i) - 1)))"
    unfolding calculate_deadwood_points
    by (rule sum.cong) (use map_filter_parse_range card_points_DeadwoodValue in auto)
  from e f s show ?thesis by blast
qed

theorem calculate_deadwood_unmatched_sum_witness:
  "(\<Sum>i | i < length (List.map_filter parse_card
                        [''K-hearts'', ''K-diamonds'', ''Z-hearts'', ''K-clubs'', ''2-spades'']) \<and>
          i \<notin> fst (find_melds (List.map_filter parse_card
                        [''K-hearts'', ''K-diamonds'', ''Z-hearts'', ''K-clubs'', ''2-spades''])).
      DeadwoodValue (RANKS ! (fst (List.map_filter parse_card
                        [''K-hearts'', ''K-diamonds'', ''Z-hearts'', ''K-clubs'', ''2-spades''] ! i) - 1)))
   = 2"
proof -
  have "calculate_deadwood [''K-hearts'', ''K-diamonds'', ''Z-hearts'', ''K-clubs'', ''2-spades'']
          = 2"
    by code_simp
  with calculate_deadwood_unmatched_sum
    [of "[''K-hearts'', ''K-diamonds'', ''Z-hearts'', ''K-clubs'', ''2-spades'']"]
  show ?thesis by simp
qed

section \<open>Facts about the simulation\<close>

lemma try_discards_nonneg:
  assumes "try_discards h cs best = Some (b, c)"
    and "\<And>b0 c0. best = Some (b0, c0) \<Longrightarrow> 0 \<le> b0"
  shows "0 \<le> b"
  using assms
proof (induction cs arbitrary: best)
  case Nil
  then show ?case by simp
next
  case (Cons x cs)
  let ?dw = "calculate_deadwood (filter (\<lambda>c. c \<noteq> x) h)"
  let ?best' = "(case best of None \<Rightarrow> Some (?dw, x)
                 | Some (b0, c0) \<Rightarrow> if ?dw < b0 then Some (?dw, x) else Some (b0, c0))"
  from Cons.prems(1) have run: "try_discards h cs ?best' = Some (b, c)"
    by (simp add: Let_def)
  have "0 \<le> b1" if "?best' = Some (b1, c1)" for b1 c1
    using that Cons.prems(2) calculate_deadwood_nonneg [of "filter (\<lambda>c. c \<noteq> x) h"]
    by (auto split: option.splits if_splits)
  with Cons.IH [OF run] show ?case by blast
qed

lemma draw_step_bounds:
  assumes "draw_step init (h, best, imp) drawn = (h', best', imp')"
    and "0 \<le> best"
  shows "0 \<le> best' \<and> best' \<le> best \<and> imp \<le> imp' \<and> imp' \<le> imp + 1"
proof (cases "try_discards (h @ [drawn]) (h @ [drawn]) None")
  case None
  with assms show ?thesis by (simp add: draw_step_def Let_def)
next
  case (Some p)
  obtain b c where p: "p = (b, c)" by (cases p)
  from Some p have "0 \<le> b"
    using try_discards_nonneg [of "h @ [drawn]" "h @ [drawn]" None b c] by simp
  with assms Some p show ?thesis
    by (auto simp: draw_step_def Let_def split: if_splits)
qed

lemma draws_bounds:
  assumes "foldl (draw_step init) (h, best, imp) ds = (h', best', imp')"
    and "0 \<le> best"
  shows "0 \<le> best' \<and> best' \<le> best \<and> imp \<le> imp' \<and> imp' \<le> imp + length ds"
  using assms
proof (induction ds arbitrary: h best imp)
  case Nil
  then show ?case by simp
next
  case (Cons d ds)
  obtain h1 b1 i1 where step: "draw_step init (h, best, imp) d = (h1, b1, i1)"
    by (cases "draw_step init (h, best, imp) d") auto
  from draw_step_bounds [OF step Cons.prems(2)]
  have s: "0 \<le> b1" "b1 \<le> best" "imp \<le> i1" "i1 \<le> imp + 1" by auto
  from Cons.prems(1) step have "foldl (draw_step init) (h1, b1, i1) ds = (h', best', imp')"
    by simp
  from Cons.IH [OF this s(1)] s show ?case by auto
qed

lemma run_trial_bounds:
  assumes "run_trial hand init m imp deck_copy = (best, imp')"
    and "0 \<le> init"
  shows "0 \<le> best \<and> best \<le> init \<and> imp \<le> imp' \<and> imp' \<le> imp + nat m"
proof -
  define ds where "ds = take (nat (min m (int (length deck_copy)))) deck_copy"
  obtain h' b' i' where f: "foldl (draw_step init) (hand, init, imp) ds = (h', b', i')"
    by (cases "foldl (draw_step init) (hand, init, imp) ds") auto
  with assms(1) have eq: "best = b'" "imp' = i'"
    by (simp_all add: run_trial_def Let_def ds_def [symmetric])
  have "length ds \<le> nat m"
    by (simp add: ds_def)
  with draws_bounds [OF f assms(2)] eq show ?thesis by auto
qed

lemma trials_loop_bounds:
  assumes "trials_loop sh hand deck m init n (tot, imp, g) = (tot', imp', g')"
    and "0 \<le> init"
  shows "tot \<le> tot' \<and> tot' \<le> tot + int n * init \<and>
         imp \<le> imp' \<and> imp' \<le> imp + n * nat m"
  using assms(1)
proof (induction n arbitrary: tot imp g)
  case 0
  then show ?case by simp
next
  case (Suc n)
  obtain dc g1 where s: "sh g deck = (dc, g1)"
    by (cases "sh g deck") auto
  obtain b i1 where t: "run_trial hand init m imp dc = (b, i1)"
    by (cases "run_trial hand init m imp dc") auto
  from run_trial_bounds [OF t assms(2)]
  have b: "0 \<le> b" "b \<le> init" "imp \<le> i1" "i1 \<le> imp + nat m" by auto
  from Suc.prems s t
  have "trials_loop sh hand deck m init n (tot + b, i1, g1) = (tot', imp', g')"
    by simp
  from Suc.IH [OF this] b show ?case
    by (auto simp: algebra_simps)
qed

lemma simulate_game_result:
  assumes "deck \<noteq> []" and "t \<noteq> 0"
  shows "\<exists>tot imp g'.
           trials_loop sh hand deck m (calculate_deadwood hand) (nat t) (0, 0, g)
             = (tot, imp, g') \<and>
           simulate_game sh hand deck t m g =
             (Inr (of_int tot / of_int t, of_nat imp / of_int t), g')"
proof -
  obtain tot imp g' where
    "trials_loop sh hand deck m (calculate_deadwood hand) (nat t) (0, 0, g) = (tot, imp, g')"
    by (cases "trials_loop sh hand deck m (calculate_deadwood hand) (nat t) (0, 0, g)") auto
  with assms show ?thesis
    by (simp add: simulate_game_def Let_def)
qed

lemma simulate_game_bounds:
  assumes "deck \<noteq> []" and "1 \<le> t"
  shows "\<exists>avg rate g'. simulate_game sh hand deck t m g = (Inr (avg, rate), g') \<and>
           0 \<le> avg \<and> avg \<le> of_int (calculate_deadwood hand) \<and>
           0 \<le> rate \<and> rate \<le> of_nat (nat m)"
proof -
  from assms have t0: "t \<noteq> 0" by simp
  from simulate_game_result [OF assms(1) t0, of sh hand m g]
  obtain tot imp g' where
    loop: "trials_loop sh hand deck m (calculate_deadwood hand) (nat t) (0, 0, g)
             = (tot, imp, g')"
    and res: "simulate_game sh hand deck t m g =
             (Inr (of_int tot / of_int t, of_nat imp / of_int t), g')"
    by blast
  from trials_loop_bounds [OF loop calculate_deadwood_nonneg]
  have b: "0 \<le> tot" "tot \<le> int (nat t) * calculate_deadwood hand"
    "imp \<le> nat t * nat m" by auto
  have tpos: "(0::rat) < of_int t" using assms(2) by simp
  have nt: "int (nat t) = t" using assms(2) by simp
  have a1: "(0::rat) \<le> of_int tot / of_int t"
    using b(1) tpos by simp
  have "(of_int tot :: rat) \<le> of_int (t * calculate_deadwood hand)"
    using b(2) nt by (simp only: of_int_le_iff)
  then have a2: "(of_int tot :: rat) / of_int t \<le> of_int (calculate_deadwood hand)"
    using tpos by (simp add: pos_divide_le_eq mult.commute)
  have r1: "(0::rat) \<le> of_nat imp / of_int t"
    using tpos by simp
  have "(of_nat imp :: rat) \<le> of_nat (nat t * nat m)"
    using b(3) by (simp only: of_nat_le_iff)
  moreover have "(of_nat (nat t) :: rat) = of_int t"
    using assms(2) by simp
  ultimately have r2: "(of_nat imp :: rat) / of_int t \<le> of_nat (nat m)"
    using tpos by (simp add: pos_divide_le_eq mult.commute)
  from res a1 a2 r1 r2 show ?thesis by blast
qed

lemma trials_loop_draw_orders:
  assumes "draw_orders sh deck n g = draw_orders sh' deck n g'"
  shows "(case trials_loop sh hand deck m init n (tot, imp, g) of (a, b, _) \<Rightarrow> (a, b))
       = (case trials_loop sh' hand deck m init n (tot, imp, g') of (a, b, _) \<Rightarrow> (a, b))"
  using assms
proof (induction n arbitrary: tot imp g g')
  case 0
  then show ?case by simp
next
  case (Suc n)
  obtain dc g1 where s: "sh g deck = (dc, g1)"
    by (cases "sh g deck") auto
  obtain dc' g1' where s': "sh' g' deck = (dc', g1')"
    by (cases "sh' g' deck") auto
  from Suc.prems s s' have same: "dc' = dc"
    and rest: "draw_orders sh deck n g1 = draw_orders sh' deck n g1'"
    by simp_all
  obtain b i1 where t: "run_trial hand init m imp dc = (b, i1)"
    by (cases "run_trial hand init m imp dc") auto
  from Suc.IH [OF rest, of "tot + b" i1] s s' same t show ?case
    by simp
qed

text \<open>
  C1 (determinism), as amended. The result of \<open>simulate_game\<close> is a function of its four
  arguments and of the draw orders that the process-wide generator yields for its
  trials: two calls whose generators yield the same draw orders (in particular two
  calls from the same generator state) give the same pair.
\<close>

theorem simulate_determined_by_draw_orders:
  assumes "draw_orders sh deck (nat t) g = draw_orders sh' deck (nat t) g'"
  shows "fst (simulate_game sh hand deck t m g) = fst (simulate_game sh' hand deck t m g')"
proof (cases "deck = []")
  case True
  then show ?thesis by (simp add: simulate_game_def)
next
  case False
  let ?i = "calculate_deadwood hand"
  obtain a b g1 where l: "trials_loop sh hand deck m ?i (nat t) (0, 0, g) = (a, b, g1)"
    by (cases "trials_loop sh hand deck m ?i (nat t) (0, 0, g)") auto
  obtain a' b' g1' where l': "trials_loop sh' hand deck m ?i (nat t) (0, 0, g') = (a', b', g1')"
    by (cases "trials_loop sh' hand deck m ?i (nat t) (0, 0, g')") auto
  from trials_loop_draw_orders [OF assms, of hand m ?i 0 0] l l'
  have "a' = a" "b' = b" by simp_all
  with False l l' show ?thesis
    by (simp add: simulate_game_def Let_def)
qed

lemma ex_sim_0:
  "simulate_game rotate_shuffle [''A-hearts'', ''2-hearts'', ''K-spades'']
     [''3-hearts'', ''K-diamonds''] 1 1 0 = (Inr (0, 1), 1)"
  by code_simp

lemma ex_sim_1:
  "simulate_game rotate_shuffle [''A-hearts'', ''2-hearts'', ''K-spades'']
     [''3-hearts'', ''K-diamonds''] 1 1 1 = (Inr (13, 0), 2)"
  by code_simp

theorem simulate_determined_by_draw_orders_witness:
  "draw_orders rotate_shuffle [''3-hearts'', ''K-diamonds''] (nat 1) 0
     = draw_orders rotate_shuffle [''3-hearts'', ''K-diamonds''] (nat 1) 2 \<and>
   fst (simulate_game rotate_shuffle [''A-hearts'', ''2-hearts'', ''K-spades'']
          [''3-hearts'', ''K-diamonds''] 1 1 0)
     = fst (simulate_game rotate_shuffle [''A-hearts'', ''2-hearts'', ''K-spades'']
          [''3-hearts'', ''K-diamonds''] 1 1 2)"
proof -
  have h: "draw_orders rotate_shuffle [''3-hearts'', ''K-diamonds''] (nat 1) 0
     = draw_orders rotate_shuffle [''3-hearts'', ''K-diamonds''] (nat 1) 2"
    by code_simp
  from h simulate_determined_by_draw_orders [OF h] show ?thesis by blast
qed

text \<open>
  C1 as stated fails: \<open>simulate_game\<close> is given no random source, it draws from the
  generator state of the process and leaves it advanced. Two consecutive calls with
  the same four arguments, the second starting from the state the first one left,
  return different pairs.
\<close>

theorem simulate_consecutive_calls_differ:
  "fst (simulate_game rotate_shuffle [''A-hearts'', ''2-hearts'', ''K-spades'']
          [''3-hearts'', ''K-diamonds''] 1 1
          (snd (simulate_game rotate_shuffle [''A-hearts'', ''2-hearts'', ''K-spades'']
                  [''3-hearts'', ''K-diamonds''] 1 1 0)))
   \<noteq> fst (simulate_game rotate_shuffle [''A-hearts'', ''2-hearts'', ''K-spades'']
          [''3-hearts'', ''K-diamonds''] 1 1 0)"
  unfolding ex_sim_0 snd_conv ex_sim_1 by simp

text \<open>
  C9 (bounded average). With a non-empty unknown deck and at least one trial the
  simulation returns a pair whose average deadwood lies between 0 and the deadwood of
  the hand it was given.
\<close>

theorem simulate_average_bounded:
  assumes "deck \<noteq> []" and "1 \<le> t"
  shows "\<exists>avg rate. fst (simulate_game sh hand deck t m g) = Inr (avg, rate) \<and>
           0 \<le> avg \<and> avg \<le> of_int (calculate_deadwood hand)"
proof -
  from simulate_game_bounds [OF assms, of sh hand m g]
  obtain avg rate g' where "simulate_game sh hand deck t m g = (Inr (avg, rate), g')"
    and "0 \<le> avg" and "avg \<le> of_int (calculate_deadwood hand)"
    by blast
  then show ?thesis by simp
qed

theorem simulate_average_bounded_witness:
  "[''3-hearts'', ''K-diamonds''] \<noteq> [] \<and> (1::int) \<le> 1 \<and>
   fst (simulate_game rotate_shuffle [''A-hearts'', ''2-hearts'', ''K-spades'']
          [''3-hearts'', ''K-diamonds''] 1 1 1) = Inr (13, 0) \<and>
   (13::rat) \<le> of_int (calculate_deadwood [''A-hearts'', ''2-hearts'', ''K-spades''])"
proof -
  from simulate_average_bounded
    [of "[''3-hearts'', ''K-diamonds'']" 1 rotate_shuffle
        "[''A-hearts'', ''2-hearts'', ''K-spades'']" 1 1]
  obtain avg rate where
    r: "fst (simulate_game rotate_shuffle [''A-hearts'', ''2-hearts'', ''K-spades'']
          [''3-hearts'', ''K-diamonds''] 1 1 1) = Inr (avg, rate)"
    and b: "avg \<le> of_int (calculate_deadwood [''A-hearts'', ''2-hearts'', ''K-spades''])"
    by auto
  from r have "avg = 13" "rate = 0"
    unfolding ex_sim_1 by simp_all
  with r b show ?thesis by simp
qed

text \<open>
  C10 (bounded improvement rate). With a non-empty unknown deck, at least one trial
  and at least one draw allowed, the improvement rate lies between 0 and the number
  of draws allowed.
\<close>

theorem simulate_improvement_rate_bounded:
  assumes "deck \<noteq> []" and "1 \<le> t" and "1 \<le> m"
  shows "\<exists>avg rate. fst (simulate_game sh hand deck t m g) = Inr (avg, rate) \<and>
           0 \<le> rate \<and> rate \<le> of_int m"
proof -
  from simulate_game_bounds [OF assms(1,2), of sh hand m g]
  obtain avg rate g' where "simulate_game sh hand deck t m g = (Inr (avg, rate), g')"
    and "0 \<le> rate" and "rate \<le> of_nat (nat m)"
    by blast
  moreover have "(of_nat (nat m) :: rat) = of_int m"
    using assms(3) by simp
  ultimately show ?thesis by simp
qed

theorem simulate_improvement_rate_bounded_witness:
  "[''3-hearts'', ''K-diamonds''] \<noteq> [] \<and> (1::int) \<le> 1 \<and>
   fst (simulate_game rotate_shuffle [''A-hearts'', ''2-hearts'', ''K-spades'']
          [''3-hearts'', ''K-diamonds''] 1 1 0) = Inr (0, 1) \<and>
   (1::rat) \<le> of_int 1"
proof -
  from simulate_improvement_rate_bounded
    [of "[''3-hearts'', ''K-diamonds'']" 1 1 rotate_shuffle
        "[''A-hearts'', ''2-hearts'', ''K-spades'']" 0]
  obtain avg rate where
    r: "fst (simulate_game rotate_shuffle [''A-hearts'', ''2-hearts'', ''K-spades'']
          [''3-hearts'', ''K-diamonds''] 1 1 0) = Inr (avg, rate)"
    and b: "rate \<le> of_int 1"
    by auto
  from r have "avg = 0" "rate = 1"
    unfolding ex_sim_0 by simp_all
  with r b show ?thesis by simp
qed

section \<open>Facts about the discard advice\<close>

lemma suggest_one_ok:
  assumes "deck \<noteq> []" and "trials request \<noteq> 0"
  shows "\<exists>sg g'. suggest_one sh request deck cur c g = (Inr sg, g') \<and> card_tok sg = c"
proof -
  from simulate_game_result [OF assms, of sh "filter (\<lambda>x. x \<noteq> c) (my_hand request)"
      "max_draws request" g]
  obtain a b g' where
    "simulate_game sh (filter (\<lambda>x. x \<noteq> c) (my_hand request)) deck (trials request)
       (max_draws request) g = (Inr (a, b), g')"
    by blast
  then show ?thesis
    by (simp add: suggest_one_def Let_def)
qed

lemma suggest_loop_ok:
  assumes "deck \<noteq> []" and "trials request \<noteq> 0"
  shows "\<exists>rs g'. suggest_loop sh request deck cur cs acc g = (Inr (acc @ rs), g') \<and>
                  map card_tok rs = cs"
proof (induction cs arbitrary: acc g)
  case Nil
  then show ?case by simp
next
  case (Cons c cs)
  from suggest_one_ok [OF assms, of sh cur c g]
  obtain sg g1 where one: "suggest_one sh request deck cur c g = (Inr sg, g1)"
    and tok: "card_tok sg = c"
    by blast
  from Cons.IH [of "acc @ [sg]" g1]
  obtain rs g' where "suggest_loop sh request deck cur cs (acc @ [sg]) g1
      = (Inr ((acc @ [sg]) @ rs), g')" and "map card_tok rs = cs"
    by blast
  with one tok have "suggest_loop sh request deck cur (c # cs) acc g
      = (Inr (acc @ (sg # rs)), g') \<and> map card_tok (sg # rs) = c # cs"
    by simp
  then show ?case
    by (intro exI [where x = "sg # rs"] exI [where x = g'])
qed

lemma suggest_one_error:
  assumes "suggest_one sh request deck cur c g = (Inl e, g')"
  shows "e = InternalError"
  using assms
  by (auto simp: suggest_one_def Let_def split: prod.splits sum.splits)

lemma suggest_loop_error:
  assumes "suggest_loop sh request deck cur cs acc g = (Inl e, g')"
  shows "e = InternalError"
  using assms
proof (induction cs arbitrary: acc g)
  case Nil
  then show ?case by simp
next
  case (Cons c cs)
  show ?case
  proof (cases "suggest_one sh request deck cur c g")
    case (Pair r g1)
    show ?thesis
    proof (cases r)
      case (Inl e1)
      with Pair Cons.prems suggest_one_error [of sh request deck cur c g e1 g1]
      show ?thesis by simp
    next
      case (Inr sg)
      with Pair Cons.prems have "suggest_loop sh request deck cur cs (acc @ [sg]) g1 = (Inl e, g')"
        by simp
      then show ?thesis by (rule Cons.IH)
    qed
  qed
qed

lemma sort_results_mset: "mset (sort_results rs) = mset rs"
  by (simp add: sort_results_def)

lemma sort_results_descending:
  assumes "i < j" and "j < length (sort_results rs)"
  shows "(win_probability (sort_results rs ! j), - expected_deadwood (sort_results rs ! j))
       \<le> (win_probability (sort_results rs ! i), - expected_deadwood (sort_results rs ! i))"
proof -
  let ?key = "\<lambda>x. (win_probability x, - expected_deadwood x)"
  let ?zs = "sort_key ?key (rev rs)"
  have "sorted (map ?key ?zs)"
    by (rule sorted_sort_key)
  then have "sorted_wrt (\<lambda>x y. ?key x \<le> ?key y) ?zs"
    by (simp add: sorted_map)
  then have "sorted_wrt (\<lambda>x y. ?key y \<le> ?key x) (rev ?zs)"
    by (simp add: sorted_wrt_rev)
  then have "?key (rev ?zs ! j) \<le> ?key (rev ?zs ! i)"
    using assms by (simp add: sorted_wrt_iff_nth_less sort_results_def)
  then show ?thesis
    by (simp add: sort_results_def)
qed


lemma unknown_deck_visible_parseable:
  "unknown_deck_of hand (filter (\<lambda>c. parse_card c \<noteq> None) vis) = unknown_deck_of hand vis"
  unfolding unknown_deck_of_def
  by (rule filter_cong) (use build_deck_parses in auto)

lemma suggest_one_visible:
  "suggest_one sh (request\<lparr>visible := v\<rparr>) deck cur c g = suggest_one sh request deck cur c g"
  by (simp add: suggest_one_def Let_def split: prod.split sum.split)

lemma suggest_loop_visible:
  "suggest_loop sh (request\<lparr>visible := v\<rparr>) deck cur cs acc g
     = suggest_loop sh request deck cur cs acc g"
  by (induction cs arbitrary: acc g)
    (simp_all add: suggest_one_visible split: prod.split sum.split)

lemma suggest_discard_visible:
  "suggest_discard sh (request\<lparr>visible := filter (\<lambda>c. parse_card c \<noteq> None) (visible request)\<rparr>) g
     = suggest_discard sh request g"
  by (simp add: suggest_discard_def unknown_deck_visible_parseable suggest_loop_visible
      Let_def del: not_None_eq)

text \<open>
  C5 (ranking). A request that satisfies the field constraints, whose hand tokens all
  parse and are pairwise different, and that leaves at least one unknown card, is
  answered with one suggestion per hand card, in an order in which the win
  probability never increases and, among equal win probabilities, the expected
  deadwood never decreases.
\<close>

theorem suggest_discard_ranked:
  assumes "request_fields_ok request"
    and "\<forall>c \<in> set (my_hand request). parse_card c \<noteq> None"
    and "distinct (my_hand request)"
    and "unknown_deck_of (my_hand request) (visible request) \<noteq> []"
  shows "\<exists>resp. fst (suggest_discard sh request g) = Inr resp \<and>
      length (suggestions resp) = length (my_hand request) \<and>
      mset (map card_tok (suggestions resp)) = mset (my_hand request) \<and>
      (\<forall>i j. i < j \<and> j < length (suggestions resp) \<longrightarrow>
         win_probability (suggestions resp ! j) \<le> win_probability (suggestions resp ! i) \<and>
         (win_probability (suggestions resp ! j) = win_probability (suggestions resp ! i) \<longrightarrow>
            expected_deadwood (suggestions resp ! i) \<le> expected_deadwood (suggestions resp ! j)))"
proof -
  let ?hand = "my_hand request"
  let ?deck = "unknown_deck_of ?hand (visible request)"
  let ?cur = "calculate_deadwood ?hand"
  from assms(1) have t0: "trials request \<noteq> 0"
    by (simp add: request_fields_ok_def)
  from suggest_loop_ok [OF assms(4) t0, of sh ?cur ?hand "[]" g]
  obtain rs g' where loop: "suggest_loop sh request ?deck ?cur ?hand [] g = (Inr rs, g')"
    and toks: "map card_tok rs = ?hand"
    by auto
  define resp where "resp = \<lparr> suggestions = sort_results rs,
      current_deadwood = round2 (of_int ?cur),
      message = (if length (sort_results rs) > 0 \<and> win_probability (hd (sort_results rs)) < 3 / 10
                 then Some low_message else None) \<rparr>"
  have valid: "filter (\<lambda>c. parse_card c = None) ?hand = []"
    using assms(2) by (simp add: filter_empty_conv)
  have nodup: "length ?hand = card (set ?hand)"
    using assms(3) by (simp add: distinct_card)
  have res: "fst (suggest_discard sh request g) = Inr resp"
    using valid nodup assms(4) loop
    by (simp add: suggest_discard_def Let_def resp_def)
  have len: "length (suggestions resp) = length ?hand"
    using toks by (simp add: resp_def sort_results_def) (metis length_map)
  have "mset (map card_tok (sort_results rs)) = mset (map card_tok rs)"
    by (simp add: sort_results_mset)
  with toks have ms: "mset (map card_tok (suggestions resp)) = mset ?hand"
    by (simp add: resp_def)
  have ord: "win_probability (suggestions resp ! j) \<le> win_probability (suggestions resp ! i) \<and>
         (win_probability (suggestions resp ! j) = win_probability (suggestions resp ! i) \<longrightarrow>
            expected_deadwood (suggestions resp ! i) \<le> expected_deadwood (suggestions resp ! j))"
    if "i < j \<and> j < length (suggestions resp)" for i j
  proof -
    from that have "i < j" "j < length (sort_results rs)"
      by (simp_all add: resp_def)
    from sort_results_descending [OF this] show ?thesis
      by (auto simp: resp_def less_eq_prod_def)
  qed
  from res len ms ord show ?thesis by blast
qed

theorem suggest_discard_ranked_witness:
  "request_fields_ok
     \<lparr>my_hand = [''A-hearts'', ''2-hearts'', ''3-hearts'', ''K-spades'', ''5-diamonds''],
      visible = [], trials = 50, max_draws = 5\<rparr> \<and>
   (\<exists>resp.
      fst (suggest_discard rotate_shuffle
             \<lparr>my_hand = [''A-hearts'', ''2-hearts'', ''3-hearts'', ''K-spades'', ''5-diamonds''],
              visible = [], trials = 50, max_draws = 5\<rparr> 0) = Inr resp \<and>
      length (suggestions resp) = 5 \<and>
      mset (map card_tok (suggestions resp))
        = {#''A-hearts'', ''2-hearts'', ''3-hearts'', ''K-spades'', ''5-diamonds''#})"
proof -
  let ?r = "\<lparr>my_hand = [''A-hearts'', ''2-hearts'', ''3-hearts'', ''K-spades'', ''5-diamonds''],
             visible = [], trials = 50, max_draws = 5\<rparr>"
  have ok: "request_fields_ok ?r"
    by (simp add: request_fields_ok_def)
  have p: "\<forall>c \<in> set (my_hand ?r). parse_card c \<noteq> None"
    by (simp add: parse_eval)
  have d: "distinct (my_hand ?r)"
    by simp
  have u: "unknown_deck_of (my_hand ?r) (visible ?r) \<noteq> []"
    by (simp add: unknown_deck_of_def build_deck_tokens)
  from suggest_discard_ranked [OF ok p d u, of rotate_shuffle 0] ok show ?thesis
    by auto
qed

text \<open>
  C7 (invalid tokens). A request with a hand token that does not parse is answered
  with \<open>InvalidCardFormat\<close> carrying exactly the hand tokens that do not parse, and the
  generator state is returned untouched (no simulation has run). When every hand
  token parses the answer is never \<open>InvalidCardFormat\<close>, and it is the answer the same
  request gets with the unparseable tokens removed from its visible list.
\<close>

theorem suggest_discard_invalid_tokens:
  "((\<exists>c \<in> set (my_hand request). parse_card c = None) \<longrightarrow>
      filter (\<lambda>c. parse_card c = None) (my_hand request) \<noteq> [] \<and>
      suggest_discard sh request g =
        (Inl (InvalidCardFormat (filter (\<lambda>c. parse_card c = None) (my_hand request))), g)) \<and>
   ((\<forall>c \<in> set (my_hand request). parse_card c \<noteq> None) \<longrightarrow>
      (\<forall>bad. fst (suggest_discard sh request g) \<noteq> Inl (InvalidCardFormat bad)) \<and>
      suggest_discard sh request g =
        suggest_discard sh
          (request\<lparr>visible := filter (\<lambda>c. parse_card c \<noteq> None) (visible request)\<rparr>) g)"
proof -
  have a: "filter (\<lambda>c. parse_card c = None) (my_hand request) \<noteq> [] \<and>
      suggest_discard sh request g =
        (Inl (InvalidCardFormat (filter (\<lambda>c. parse_card c = None) (my_hand request))), g)"
    if "\<exists>c \<in> set (my_hand request). parse_card c = None"
  proof -
    from that obtain c where "c \<in> set (my_hand request)" "parse_card c = None"
      by blast
    then have "c \<in> set (filter (\<lambda>c. parse_card c = None) (my_hand request))"
      by simp
    then have "filter (\<lambda>c. parse_card c = None) (my_hand request) \<noteq> []"
      by (metis empty_iff list.set(1))
    then show ?thesis
      by (simp add: suggest_discard_def Let_def)
  qed
  have b: "fst (suggest_discard sh request g) \<noteq> Inl (InvalidCardFormat bad)"
    if "\<forall>c \<in> set (my_hand request). parse_card c \<noteq> None" for bad
  proof -
    from that have "filter (\<lambda>c. parse_card c = None) (my_hand request) = []"
      by (simp add: filter_empty_conv)
    then show ?thesis
      by (auto simp: suggest_discard_def Let_def split: prod.splits sum.splits if_splits
          dest: suggest_loop_error)
  qed
  from a b suggest_discard_visible [of sh request g] show ?thesis
    by simp
qed

theorem suggest_discard_invalid_tokens_witness:
  "suggest_discard rotate_shuffle
     \<lparr>my_hand = [''Z-hearts'', ''A-hearts'', ''5_clubs''], visible = [],
      trials = 50, max_draws = 5\<rparr> 7
     = (Inl (InvalidCardFormat [''Z-hearts'', ''5_clubs'']), 7) \<and>
   suggest_discard rotate_shuffle
     \<lparr>my_hand = [''A-hearts''], visible = [''Z-hearts'', ''K-spades''],
      trials = 50, max_draws = 5\<rparr> 0
     = suggest_discard rotate_shuffle
         \<lparr>my_hand = [''A-hearts''], visible = [''K-spades''], trials = 50, max_draws = 5\<rparr> 0"
proof -
  let ?bad = "\<lparr>my_hand = [''Z-hearts'', ''A-hearts'', ''5_clubs''], visible = [],
               trials = 50, max_draws = 5\<rparr>"
  let ?good = "\<lparr>my_hand = [''A-hearts''], visible = [''Z-hearts'', ''K-spades''],
                trials = 50, max_draws = 5\<rparr>"
  have b: "\<exists>c \<in> set (my_hand ?bad). parse_card c = None"
    by (simp add: parse_eval)
  have fb: "filter (\<lambda>c. parse_card c = None) (my_hand ?bad) = [''Z-hearts'', ''5_clubs'']"
    by (simp add: parse_eval)
  have g: "\<forall>c \<in> set (my_hand ?good). parse_card c \<noteq> None"
    by (simp add: parse_eval)
  have fg: "filter (\<lambda>c. parse_card c \<noteq> None) (visible ?good) = [''K-spades'']"
    by (simp add: parse_eval)
  have 1: "suggest_discard rotate_shuffle ?bad 7
             = (Inl (InvalidCardFormat [''Z-hearts'', ''5_clubs'']), 7)"
    using suggest_discard_invalid_tokens
      [of ?bad rotate_shuffle 7, THEN conjunct1, THEN mp, OF b]
    unfolding fb by (rule conjunct2)
  have 2: "suggest_discard rotate_shuffle ?good 0
             = suggest_discard rotate_shuffle (?good\<lparr>visible := [''K-spades'']\<rparr>) 0"
    using suggest_discard_invalid_tokens
      [of ?good rotate_shuffle 0, THEN conjunct2, THEN mp, OF g]
    unfolding fg by (rule conjunct2)
  from 1 2 show ?thesis by simp
qed

section \<open>Facts about meld detection\<close>

lemma dict_append_keys:
  "map fst (dict_append k v d) = (if k \<in> set (map fst d) then map fst d else map fst d @ [k])"
  by (induction d) force+

lemma dict_append_map_of:
  "map_of (dict_append k v d) =
     (map_of d)(k \<mapsto> (case map_of d k of None \<Rightarrow> [v] | Some vs \<Rightarrow> vs @ [v]))"
  by (induction d) (auto simp: fun_eq_iff)

lemma group_by_snoc:
  "group_by key val (xs @ [x]) = dict_append (key x) (val x) (group_by key val xs)"
  by (simp add: group_by_def)

lemma group_by_keys_set: "set (map fst (group_by key val xs)) = key ` set xs"
  by (induction xs rule: rev_induct) (auto simp: group_by_snoc dict_append_keys group_by_def)

lemma group_by_keys_distinct: "distinct (map fst (group_by key val xs))"
  by (induction xs rule: rev_induct) (auto simp: group_by_snoc dict_append_keys group_by_def)

lemma group_by_keys_sorted:
  assumes "sorted (map key xs)"
  shows "sorted (map fst (group_by key val xs))"
  using assms
proof (induction xs rule: rev_induct)
  case Nil
  then show ?case by (simp add: group_by_def)
next
  case (snoc x xs)
  from snoc.prems have s: "sorted (map key xs)" and le: "\<forall>y \<in> set xs. key y \<le> key x"
    by (auto simp: sorted_append)
  from le have "\<forall>k \<in> set (map fst (group_by key val xs)). k \<le> key x"
    unfolding group_by_keys_set by auto
  with snoc.IH [OF s] show ?case
    by (auto simp: group_by_snoc dict_append_keys sorted_append)
qed

lemma group_by_map_of:
  "map_of (group_by key val xs) k =
     (if k \<in> key ` set xs then Some (map val (filter (\<lambda>x. key x = k) xs)) else None)"
proof (induction xs rule: rev_induct)
  case Nil
  then show ?case by (simp add: group_by_def)
next
  case (snoc x xs)
  then show ?case
    by (fastforce simp: group_by_snoc dict_append_map_of filter_empty_conv image_iff)
qed

lemma group_by_member:
  "(k, vs) \<in> set (group_by key val xs) \<longleftrightarrow>
     k \<in> key ` set xs \<and> vs = map val (filter (\<lambda>x. key x = k) xs)"
proof -
  have "(k, vs) \<in> set (group_by key val xs) \<longleftrightarrow> map_of (group_by key val xs) k = Some vs"
    using group_by_keys_distinct [of key val xs] by simp
  then show ?thesis
    by (auto simp: group_by_map_of)
qed

lemma group_by_eq_map:
  "group_by key val xs =
     map (\<lambda>k. (k, map val (filter (\<lambda>x. key x = k) xs))) (map fst (group_by key val xs))"
proof -
  have "\<forall>g \<in> set (group_by key val xs).
          g = (fst g, map val (filter (\<lambda>x. key x = fst g) xs))"
    using group_by_member [of _ _ key val xs] by (metis prod.collapse)
  then have "map (\<lambda>g. (fst g, map val (filter (\<lambda>x. key x = fst g) xs))) (group_by key val xs)
               = group_by key val xs"
    by (simp add: map_idI)
  then show ?thesis
    by (simp add: comp_def)
qed

lemma foldl_filter:
  "foldl (\<lambda>d x. if P x then f d x else d) a xs = foldl f a (filter P xs)"
  by (induction xs arbitrary: a) auto

lemma rank_groups_group_by:
  "rank_groups sh = group_by (\<lambda>x. fst (snd x)) (\<lambda>x. (fst x, snd (snd x))) sh"
  unfolding rank_groups_def group_by_def
  by (rule arg_cong [where f = "\<lambda>f. foldl f [] sh"]) (auto simp: fun_eq_iff)

lemma suit_groups_group_by:
  "suit_groups sh M =
     group_by (\<lambda>x. snd (snd x)) (\<lambda>x. (fst x, fst (snd x))) (filter (\<lambda>x. fst x \<notin> M) sh)"
proof -
  have "suit_groups sh M =
      foldl (\<lambda>d x. if fst x \<notin> M then dict_append (snd (snd x)) (fst x, fst (snd x)) d else d) [] sh"
    unfolding suit_groups_def
    by (rule arg_cong [where f = "\<lambda>f. foldl f [] sh"]) (auto simp: fun_eq_iff)
  then show ?thesis
    by (simp add: foldl_filter group_by_def)
qed

lemma sorted_hand_sort: "sorted_hand ph = sort_key snd (enumerate 0 ph)"
  by (simp add: sorted_hand_def)

lemma sorted_hand_member:
  "(i, c) \<in> set (sorted_hand ph) \<longleftrightarrow> i < length ph \<and> c = ph ! i"
  by (auto simp: sorted_hand_sort in_set_enumerate_eq)

lemma sorted_hand_sorted: "sorted (map snd (sorted_hand ph))"
  by (simp add: sorted_hand_sort)

lemma sorted_hand_inj: "inj_on fst (set (sorted_hand ph))"
  by (rule inj_onI) (metis prod.collapse sorted_hand_member)

lemma sorted_hand_distinct: "distinct (sorted_hand ph)"
  by (simp add: sorted_hand_sort distinct_enumerate)

lemma sorted_hand_distinct_idx: "distinct (map fst (sorted_hand ph))"
  by (simp add: distinct_map sorted_hand_distinct sorted_hand_inj)

lemma sorted_hand_ranks_sorted: "sorted (map (\<lambda>x. fst (snd x)) (sorted_hand ph))"
proof -
  have "sorted_wrt (\<lambda>x y. snd x \<le> snd y) (sorted_hand ph)"
    using sorted_hand_sorted [of ph] by (simp add: sorted_map)
  then have "sorted_wrt (\<lambda>x y. fst (snd x) \<le> fst (snd y)) (sorted_hand ph)"
    by (rule sorted_wrt_mono_rel [rotated]) (auto simp: less_eq_prod_def)
  then show ?thesis
    by (simp add: sorted_map)
qed

lemma add_melds_Nil: "add_melds st [] = st"
  by (simp add: add_melds_def)

lemma add_melds_append: "add_melds (add_melds st a) b = add_melds st (a @ b)"
  by (auto simp: add_melds_def)

lemma set_step_add: "set_step st g = add_melds st (set_cards_of g)"
  by (cases st; cases g) (simp add: set_step_def set_cards_of_def add_melds_def Let_def)

lemma foldl_add_melds:
  assumes "\<And>st g. step st g = add_melds st (out g)"
  shows "foldl step st gs = add_melds st (concat (map out gs))"
proof (induction gs arbitrary: st)
  case Nil
  then show ?case by (simp add: add_melds_Nil)
next
  case (Cons g gs)
  then show ?case
    by (simp add: assms add_melds_append)
qed

lemma run_fold_add:
  "foldl (\<lambda>(matched_indices, melds) seq.
            (let run_cards = map f seq
             in (matched_indices \<union> set (map fst run_cards), melds @ [map snd run_cards])))
      st seqs
   = add_melds st (map (map f) seqs)"
proof -
  have eq: "(\<lambda>(matched_indices, melds) seq.
            (let run_cards = map f seq
             in (matched_indices \<union> set (map fst run_cards), melds @ [map snd run_cards])))
        = (\<lambda>st seq. add_melds st [map f seq])"
    by (auto simp: fun_eq_iff add_melds_def Let_def)
  have "foldl (\<lambda>st seq. add_melds st [map f seq]) st seqs
          = add_melds st (concat (map (\<lambda>seq. [map f seq]) seqs))"
    by (rule foldl_add_melds) simp
  moreover have "concat (map (\<lambda>seq. [map f seq]) seqs) = map (map f) seqs"
    by (induction seqs) simp_all
  ultimately show ?thesis
    unfolding eq by simp
qed

lemma run_step_add: "run_step st g = add_melds st (run_cards_of g)"
proof (cases g)
  case (Pair suit cards0)
  have "run_step st (suit, cards0) =
      (if length cards0 < 3 then st
       else add_melds st
         (map (map (\<lambda>(idx, rank). (idx, (rank, suit))))
            (scan_sequences (hd (sort_key snd cards0)) (tl (sort_key snd cards0))
               [hd (sort_key snd cards0)] [])))"
    unfolding run_step_def prod.case
    unfolding run_fold_add
    unfolding Let_def ..
  then show ?thesis
    unfolding Pair run_cards_of_def by (simp add: add_melds_Nil)
qed

lemma find_sets_indexed:
  "find_sets sh = (set (map fst (concat (indexed_sets sh))), map (map snd) (indexed_sets sh))"
  unfolding find_sets_def indexed_sets_def
  by (simp add: foldl_add_melds [of set_step set_cards_of, OF set_step_add] add_melds_def)

lemma find_runs_indexed:
  "find_runs sh st = add_melds st (indexed_runs sh (fst st))"
  unfolding find_runs_def indexed_runs_def
  by (rule foldl_add_melds) (rule run_step_add)

lemma indexed_sets_Nil: "indexed_sets [] = []"
  by (simp add: indexed_sets_def rank_groups_def)

lemma indexed_runs_Nil: "indexed_runs [] M = []"
  by (simp add: indexed_runs_def suit_groups_def)

lemma find_melds_indexed:
  "find_melds ph = (set (map fst (concat (indexed_melds ph))), map (map snd) (indexed_melds ph))"
proof (cases "ph = []")
  case True
  then show ?thesis
    by (simp add: find_melds_def indexed_melds_def sorted_hand_def indexed_sets_Nil
        indexed_runs_Nil)
next
  case False
  then show ?thesis
    by (simp add: find_melds_def Let_def find_runs_indexed find_sets_indexed add_melds_def
        indexed_melds_def)
qed

lemma set_melds_indexed: "set_melds ph = map (map snd) (indexed_sets (sorted_hand ph))"
  by (simp add: set_melds_def find_sets_indexed)

lemma run_melds_indexed:
  "run_melds ph = map (map snd)
     (indexed_runs (sorted_hand ph) (fst (find_sets (sorted_hand ph))))"
  by (simp add: run_melds_def find_runs_indexed add_melds_def)

lemma find_melds_phases: "snd (find_melds ph) = set_melds ph @ run_melds ph"
proof -
  have "fst (find_sets (sorted_hand ph))
          = set (map fst (concat (indexed_sets (sorted_hand ph))))"
    by (simp add: find_sets_indexed)
  then have "run_melds ph = map (map snd)
      (indexed_runs (sorted_hand ph) (set (map fst (concat (indexed_sets (sorted_hand ph))))))"
    by (simp only: run_melds_indexed)
  then show ?thesis
    by (simp add: find_melds_indexed indexed_melds_def set_melds_indexed)
qed

lemma collect_set_eq:
  assumes "length acc < 4"
  shows "collect_set r cards used acc =
           acc @ take (4 - length acc) (map (\<lambda>(i, s). (i, (r, s))) (first_per_suit used cards))"
  using assms
proof (induction cards arbitrary: used acc)
  case Nil
  then show ?case by simp
next
  case (Cons c cards)
  obtain idx suit where c: "c = (idx, suit)" by (cases c)
  show ?case
  proof (cases "suit \<in> used")
    case True
    with Cons c show ?thesis by simp
  next
    case False
    show ?thesis
    proof (cases "length acc = 3")
      case True
      with False c show ?thesis by (simp add: Let_def)
    next
      case n3: False
      with Cons.prems have l: "length (acc @ [(idx, (r, suit))]) < 4" by simp
      have t: "4 - length acc = Suc (4 - length (acc @ [(idx, (r, suit))]))"
        using Cons.prems by simp
      from Cons.IH [OF l, of "insert suit used"] False c n3 Cons.prems show ?thesis
        unfolding t by (simp add: Let_def)
    qed
  qed
qed

lemma first_per_suit_set: "set (first_per_suit used cards) \<subseteq> set cards"
  by (induction used cards rule: first_per_suit.induct) auto

lemma first_per_suit_suits:
  "snd ` set (first_per_suit used cards) = snd ` set cards - used"
  by (induction used cards rule: first_per_suit.induct) auto

lemma first_per_suit_unused:
  assumes "(i, s) \<in> set (first_per_suit used cards)"
  shows "s \<notin> used"
  using assms first_per_suit_suits [of used cards] by force

lemma first_per_suit_distinct: "distinct (map snd (first_per_suit used cards))"
  by (induction used cards rule: first_per_suit.induct)
    (auto dest: first_per_suit_unused)

lemma first_per_suit_sorted:
  assumes "sorted (map snd cards)"
  shows "sorted (map snd (first_per_suit used cards))"
  using assms
proof (induction used cards rule: first_per_suit.induct)
  case (1 used)
  then show ?case by simp
next
  case (2 used idx suit cards)
  then show ?case
    using first_per_suit_set [of "insert suit used" cards] by auto
qed

lemma first_per_suit_sorted_list:
  assumes "sorted (map snd cards)"
  shows "map snd (first_per_suit {} cards) = sorted_list_of_set (snd ` set cards)"
proof -
  have "sorted_list_of_set (set (map snd (first_per_suit {} cards)))
          = map snd (first_per_suit {} cards)"
    using first_per_suit_sorted [OF assms] first_per_suit_distinct
    by (rule sorted_list_of_set.idem_if_sorted_distinct)
  then show ?thesis
    by (simp add: first_per_suit_suits)
qed

lemma rank_cards_suits: "snd ` set (rank_cards (sorted_hand ph) r) = suits_of_rank ph r"
proof -
  have "snd ` set (rank_cards (sorted_hand ph) r)
          = {s. \<exists>i. (i, (r, s)) \<in> set (sorted_hand ph)}"
    by (force simp: rank_cards_def)
  also have "\<dots> = {s. \<exists>i < length ph. ph ! i = (r, s)}"
    by (auto simp: sorted_hand_member)
  also have "\<dots> = {s. (r, s) \<in> set ph}"
    by (auto simp: in_set_conv_nth)
  also have "\<dots> = suits_of_rank ph r"
    by (force simp: suits_of_rank_def)
  finally show ?thesis .
qed

lemma rank_cards_sorted: "sorted (map snd (rank_cards (sorted_hand ph) r))"
proof -
  let ?ys = "filter (\<lambda>x. fst (snd x) = r) (sorted_hand ph)"
  have "sorted (map snd ?ys)"
    using sorted_hand_sorted by (rule sorted_filter)
  then have "sorted_wrt (\<lambda>x y. snd x \<le> snd y) ?ys"
    by (simp add: sorted_map)
  then have "sorted_wrt (\<lambda>x y. snd (snd x) \<le> snd (snd y)) ?ys"
    by (rule sorted_wrt_mono_rel [rotated]) (auto simp: less_eq_prod_def)
  then show ?thesis
    by (simp add: rank_cards_def sorted_map comp_def)
qed

lemma set_cards_eq:
  "set_cards ph r =
     take 4 (map (\<lambda>(i, s). (i, (r, s))) (first_per_suit {} (rank_cards (sorted_hand ph) r)))"
  by (simp add: set_cards_def collect_set_eq)

lemma set_cards_meld:
  "map snd (set_cards ph r) = map (Pair r) (take 4 (sorted_list_of_set (suits_of_rank ph r)))"
proof -
  have "map snd (set_cards ph r)
          = map (Pair r) (take 4 (map snd (first_per_suit {} (rank_cards (sorted_hand ph) r))))"
    by (simp add: set_cards_eq take_map comp_def case_prod_beta)
  then show ?thesis
    by (simp add: first_per_suit_sorted_list [OF rank_cards_sorted] rank_cards_suits)
qed

lemma finite_suits_of_rank: "finite (suits_of_rank ph r)"
  by (simp add: suits_of_rank_def)

lemma set_cards_length: "length (set_cards ph r) = min 4 (card (suits_of_rank ph r))"
proof -
  have "length (set_cards ph r) = length (map snd (set_cards ph r))"
    by simp
  also have "\<dots> = min 4 (card (suits_of_rank ph r))"
    unfolding set_cards_meld using finite_suits_of_rank [of ph r]
    by (simp add: min.commute)
  finally show ?thesis .
qed

lemma set_cards_of_rank:
  "set_cards_of (r, rank_cards (sorted_hand ph) r) =
     (if 3 \<le> card (suits_of_rank ph r) then [set_cards ph r] else [])"
proof -
  have "card (suits_of_rank ph r) \<le> length (rank_cards (sorted_hand ph) r)"
    unfolding rank_cards_suits [symmetric]
    by (metis card_length length_map list.set_map)
  then show ?thesis
    by (auto simp: set_cards_of_def rank_cards_suits set_cards_length set_cards_def [symmetric])
qed

lemma sorted_hand_cards: "snd ` set (sorted_hand ph) = set ph"
proof -
  have "snd ` set (enumerate 0 ph) = set ph"
    by (metis list.set_map map_snd_enumerate)
  moreover have "set (sorted_hand ph) = set (enumerate 0 ph)"
    by (simp add: sorted_hand_sort)
  ultimately show ?thesis
    by (simp only:)
qed

lemma rank_groups_eq:
  "rank_groups (sorted_hand ph) =
     map (\<lambda>r. (r, rank_cards (sorted_hand ph) r)) (sorted_list_of_set (fst ` set ph))"
proof -
  let ?G = "rank_groups (sorted_hand ph)"
  have keys: "set (map fst ?G) = fst ` set ph"
    unfolding rank_groups_group_by group_by_keys_set
    using sorted_hand_cards [of ph] by (simp add: image_image [symmetric])
  have "sorted (map fst ?G)" "distinct (map fst ?G)"
    unfolding rank_groups_group_by
    by (simp_all add: group_by_keys_sorted sorted_hand_ranks_sorted group_by_keys_distinct)
  then have "sorted_list_of_set (set (map fst ?G)) = map fst ?G"
    by (rule sorted_list_of_set.idem_if_sorted_distinct)
  with keys have kl: "map fst ?G = sorted_list_of_set (fst ` set ph)"
    by simp
  have "?G = map (\<lambda>r. (r, rank_cards (sorted_hand ph) r)) (map fst ?G)"
    unfolding rank_cards_def rank_groups_group_by by (rule group_by_eq_map)
  then show ?thesis
    by (simp only: kl)
qed

lemma concat_map_if:
  "concat (map (\<lambda>x. if P x then [f x] else []) xs) = map f (filter P xs)"
  by (induction xs) simp_all

lemma indexed_sets_eq:
  "indexed_sets (sorted_hand ph) =
     map (set_cards ph)
       (filter (\<lambda>r. 3 \<le> card (suits_of_rank ph r)) (sorted_list_of_set (fst ` set ph)))"
  by (simp add: indexed_sets_def rank_groups_eq comp_def set_cards_of_rank concat_map_if)

lemma set_melds_eq:
  "set_melds ph =
     map (\<lambda>r. map (Pair r) (take 4 (sorted_list_of_set (suits_of_rank ph r))))
       (filter (\<lambda>r. 3 \<le> card (suits_of_rank ph r)) (sorted_list_of_set (fst ` set ph)))"
  by (simp add: set_melds_indexed indexed_sets_eq comp_def set_cards_meld)

lemma segs_shape: "\<exists>b bs. segs (c # cs) = (c # b) # bs \<and> cs = b @ concat bs"
proof (induction cs arbitrary: c)
  case Nil
  then show ?case by simp
next
  case (Cons d cs)
  from Cons.IH [of d] obtain b bs where s: "segs (d # cs) = (d # b) # bs" "cs = b @ concat bs"
    by blast
  then show ?case by simp
qed

lemma concat_segs: "concat (segs xs) = xs"
proof (cases xs)
  case Nil
  then show ?thesis by simp
next
  case (Cons c cs)
  with segs_shape [of c cs] show ?thesis by auto
qed

lemma scan_sequences_segs:
  assumes "cur \<noteq> []" and "last cur = p"
  shows "scan_sequences p cs cur seqs =
           seqs @ filter (\<lambda>b. 3 \<le> length b)
                    (case segs (p # cs) of [] \<Rightarrow> [] | b # bs \<Rightarrow> (butlast cur @ b) # bs)"
  using assms
proof (induction cs arbitrary: p cur seqs)
  case Nil
  then have "butlast cur @ [p] = cur"
    by (metis append_butlast_last_id)
  then show ?case by simp
next
  case (Cons c cs)
  define P where "P = (\<lambda>b :: (nat \<times> nat) list. 3 \<le> length b)"
  from Cons.prems have bl: "butlast cur @ [p] = cur"
    by (metis append_butlast_last_id)
  obtain b bs where s: "segs (c # cs) = (c # b) # bs"
    using segs_shape [of c cs] by blast
  show ?case
  proof (cases "snd c = snd p + 1")
    case True
    have step: "scan_sequences p (c # cs) cur seqs = scan_sequences c cs (cur @ [c]) seqs"
      using True by simp
    have "scan_sequences c cs (cur @ [c]) seqs =
            seqs @ filter P (case segs (c # cs) of [] \<Rightarrow> []
                             | b # bs \<Rightarrow> (butlast (cur @ [c]) @ b) # bs)"
      unfolding P_def by (rule Cons.IH) simp_all
    also have "\<dots> = seqs @ filter P ((cur @ c # b) # bs)"
      unfolding s by simp
    finally have lhs: "scan_sequences p (c # cs) cur seqs = seqs @ filter P ((cur @ c # b) # bs)"
      using step by simp
    have "segs (p # c # cs) = (p # c # b) # bs"
      using True s by simp
    moreover have "butlast cur @ p # c # b = cur @ c # b"
      using bl by (metis append.assoc append_Cons append_Nil)
    ultimately have "(case segs (p # c # cs) of [] \<Rightarrow> []
                      | b # bs \<Rightarrow> (butlast cur @ b) # bs) = (cur @ c # b) # bs"
      by simp
    with lhs show ?thesis
      unfolding P_def by simp
  next
    case False
    have step: "scan_sequences p (c # cs) cur seqs =
                  scan_sequences c cs [c] (if P cur then seqs @ [cur] else seqs)"
      using False unfolding P_def by simp
    have "scan_sequences c cs [c] (if P cur then seqs @ [cur] else seqs) =
            (if P cur then seqs @ [cur] else seqs) @
              filter P (case segs (c # cs) of [] \<Rightarrow> []
                        | b # bs \<Rightarrow> (butlast [c] @ b) # bs)"
      unfolding P_def by (rule Cons.IH) simp_all
    also have "\<dots> = seqs @ filter P (cur # segs (c # cs))"
      unfolding s by simp
    finally have lhs: "scan_sequences p (c # cs) cur seqs
                         = seqs @ filter P (cur # segs (c # cs))"
      using step by simp
    have "segs (p # c # cs) = [p] # segs (c # cs)"
      using False by simp
    with bl have "(case segs (p # c # cs) of [] \<Rightarrow> []
                   | b # bs \<Rightarrow> (butlast cur @ b) # bs) = cur # segs (c # cs)"
      by simp
    with lhs show ?thesis
      unfolding P_def by simp
  qed
qed

lemma scan_sequences_start:
  assumes "cards \<noteq> []"
  shows "scan_sequences (hd cards) (tl cards) [hd cards] [] =
           filter (\<lambda>b. 3 \<le> length b) (segs cards)"
proof -
  obtain b bs where "segs (hd cards # tl cards) = (hd cards # b) # bs"
    using segs_shape by blast
  then show ?thesis
    using assms scan_sequences_segs [of "[hd cards]" "hd cards" "tl cards" "[]"] by simp
qed

lemma length_le_concat:
  assumes "b \<in> set xss"
  shows "length b \<le> length (concat xss)"
  using assms by (induction xss) auto

lemma segs_short:
  assumes "length xs < 3"
  shows "filter (\<lambda>b. 3 \<le> length b) (segs xs) = []"
proof -
  have "\<not> 3 \<le> length b" if "b \<in> set (segs xs)" for b
    using length_le_concat [OF that] assms by (simp add: concat_segs)
  then show ?thesis
    by (simp add: filter_empty_conv)
qed

lemma run_cards_of_segs:
  "run_cards_of (suit, cards0) =
     map (map (\<lambda>(idx, rank). (idx, (rank, suit))))
       (filter (\<lambda>b. 3 \<le> length b) (segs (sort_key snd cards0)))"
proof (cases "length cards0 < 3")
  case True
  then have "length (sort_key snd cards0) < 3" by simp
  then have "filter (\<lambda>b. 3 \<le> length b) (segs (sort_key snd cards0)) = []"
    by (rule segs_short)
  then show ?thesis
    unfolding run_cards_of_def prod.case using True by (simp only: if_True list.map)
next
  case False
  from False have "cards0 \<noteq> []" by auto
  then have "sort_key snd cards0 \<noteq> []"
    by (metis set_empty set_sort)
  then have "scan_sequences (hd (sort_key snd cards0)) (tl (sort_key snd cards0))
               [hd (sort_key snd cards0)] []
             = filter (\<lambda>b. 3 \<le> length b) (segs (sort_key snd cards0))"
    by (rule scan_sequences_start)
  then show ?thesis
    unfolding run_cards_of_def prod.case using False by (simp only: if_False)
qed

lemma rank_block_single:
  "rank_block [c] [c]"
  by (simp add: rank_block_def)

lemma rank_block_extend:
  assumes "rank_block xs b" and "snd c + 1 < snd (hd b)"
  shows "rank_block (c # xs) b"
  using assms unfolding rank_block_def by auto

lemma rank_block_first:
  assumes "\<forall>x \<in> set xs. snd c + 1 < snd x"
  shows "rank_block (c # xs) [c]"
  using assms unfolding rank_block_def by force

lemma rank_block_Cons:
  assumes "rank_block (d # cs) (d # b0)" and "snd d = snd c + 1"
    and "\<forall>x \<in> set (d # cs). snd c < snd x"
  shows "rank_block (c # d # cs) (c # d # b0)"
proof -
  from assms(1) have
    i1: "set (d # b0) \<subseteq> set (d # cs)" and
    i2: "map snd (d # b0) = [snd d..<snd d + length (d # b0)]" and
    i3: "snd d + length (d # b0) \<notin> snd ` set (d # cs)"
    by (simp_all add: rank_block_def)
  let ?b = "c # d # b0"
  have e1: "snd c + length ?b = snd d + length (d # b0)"
    using assms(2) by simp
  have "[snd c..<snd c + length ?b] = snd c # [Suc (snd c)..<snd c + length ?b]"
    by (rule upt_conv_Cons) simp
  also have "\<dots> = snd c # [snd d..<snd d + length (d # b0)]"
    by (simp only: e1 assms(2) Suc_eq_plus1)
  also have "\<dots> = snd c # map snd (d # b0)"
    by (simp only: i2)
  finally have m: "map snd ?b = [snd (hd ?b)..<snd (hd ?b) + length ?b]"
    by simp
  have top: "snd (hd ?b) + length ?b \<notin> snd ` set (c # d # cs)"
    using i3 assms(2) by auto
  have bot: "\<forall>r \<in> snd ` set (c # d # cs). r + 1 \<noteq> snd (hd ?b)"
    using assms(3) by auto
  show ?thesis
    unfolding rank_block_def using i1 m top bot by auto
qed

lemma segs_blocks:
  assumes "sorted_wrt (<) (map snd xs)" and "b \<in> set (segs xs)"
  shows "rank_block xs b"
  using assms
proof (induction xs arbitrary: b rule: segs.induct)
  case 1
  then show ?case by simp
next
  case (2 c)
  then show ?case by (simp add: rank_block_single)
next
  case (3 c d cs)
  obtain b0 bs0 where s: "segs (d # cs) = (d # b0) # bs0" and cs: "cs = b0 @ concat bs0"
    using segs_shape [of d cs] by blast
  from "3.prems"(1) have sorted': "sorted_wrt (<) (map snd (d # cs))"
    and c_lt_d: "snd c < snd d"
    and c_lt: "\<forall>x \<in> set cs. snd c < snd x"
    and d_lt: "\<forall>x \<in> set cs. snd d < snd x"
    by auto
  have ih: "rank_block (d # cs) b'" if "b' \<in> set (segs (d # cs))" for b'
  proof (cases "snd d = snd c + 1")
    case True
    from "3.IH"(1) [OF True sorted' that] show ?thesis .
  next
    case False
    from "3.IH"(2) [OF False sorted' that] show ?thesis .
  qed
  have later: "snd d \<le> snd (hd b')" if "b' \<in> set (segs (d # cs))" for b'
  proof -
    from ih [OF that] have "b' \<noteq> []" "set b' \<subseteq> set (d # cs)"
      by (simp_all add: rank_block_def)
    then have "hd b' \<in> set (d # cs)"
      by (metis hd_in_set subsetD)
    with d_lt show ?thesis by auto
  qed
  have tail: "snd d < snd (hd b')" if "b' \<in> set bs0" for b'
  proof -
    from that s have m: "b' \<in> set (segs (d # cs))" by simp
    from ih [OF m] have "b' \<noteq> []" by (simp add: rank_block_def)
    then have "hd b' \<in> set b'" by simp
    with that have "hd b' \<in> set (concat bs0)" by auto
    with cs have "hd b' \<in> set cs" by simp
    with d_lt show ?thesis by blast
  qed
  show ?case
  proof (cases "snd d = snd c + 1")
    case True
    with s have segs_eq: "segs (c # d # cs) = (c # d # b0) # bs0" by simp
    from "3.prems"(2) segs_eq have "b = c # d # b0 \<or> b \<in> set bs0" by auto
    then show ?thesis
    proof
      assume b: "b = c # d # b0"
      from s have "d # b0 \<in> set (segs (d # cs))" by simp
      from ih [OF this] have "rank_block (d # cs) (d # b0)" .
      moreover have "\<forall>x \<in> set (d # cs). snd c < snd x"
        using c_lt_d c_lt by simp
      ultimately show ?thesis
        unfolding b using True by (intro rank_block_Cons)
    next
      assume b: "b \<in> set bs0"
      with s have m: "b \<in> set (segs (d # cs))" by simp
      from tail [OF b] True have "snd c + 1 < snd (hd b)" by simp
      with ih [OF m] show ?thesis by (rule rank_block_extend)
    qed
  next
    case False
    then have segs_eq: "segs (c # d # cs) = [c] # segs (d # cs)" by simp
    from False c_lt_d have gap: "snd c + 1 < snd d" by simp
    from "3.prems"(2) segs_eq have "b = [c] \<or> b \<in> set (segs (d # cs))" by auto
    then show ?thesis
    proof
      assume b: "b = [c]"
      have "\<forall>x \<in> set (d # cs). snd c + 1 < snd x"
        using gap d_lt by auto
      then show ?thesis
        unfolding b by (rule rank_block_first)
    next
      assume m: "b \<in> set (segs (d # cs))"
      from later [OF m] gap have "snd c + 1 < snd (hd b)" by simp
      with ih [OF m] show ?thesis by (rule rank_block_extend)
    qed
  qed
qed

lemma suit_groups_eq:
  "suit_groups sh M = map (\<lambda>s. (s, suit_cards sh M s)) (map fst (suit_groups sh M))"
  unfolding suit_cards_def suit_groups_group_by by (rule group_by_eq_map)

lemma suit_groups_keys_distinct: "distinct (map fst (suit_groups sh M))"
  unfolding suit_groups_group_by by (rule group_by_keys_distinct)

lemma suit_groups_keys:
  "set (map fst (suit_groups sh M)) = (\<lambda>x. snd (snd x)) ` {x \<in> set sh. fst x \<notin> M}"
  unfolding suit_groups_group_by group_by_keys_set by simp

lemma indexed_runs_eq:
  "indexed_runs sh M =
     concat (map (\<lambda>s. run_cards_of (s, suit_cards sh M s)) (map fst (suit_groups sh M)))"
  unfolding indexed_runs_def
  by (subst (1) suit_groups_eq) (simp add: comp_def)

lemma distinct_concat_keyed:
  assumes "distinct ks"
    and "\<And>k. k \<in> set ks \<Longrightarrow> distinct (F k)"
    and "\<And>k x. k \<in> set ks \<Longrightarrow> x \<in> set (F k) \<Longrightarrow> key x = k"
  shows "distinct (concat (map F ks))"
  using assms
proof (induction ks)
  case Nil
  then show ?case by simp
next
  case (Cons k ks)
  have "distinct (concat (map F ks))"
    using Cons by simp
  moreover have "distinct (F k)"
    using Cons.prems(2) by simp
  moreover have "set (F k) \<inter> set (concat (map F ks)) = {}"
  proof (rule ccontr)
    assume "set (F k) \<inter> set (concat (map F ks)) \<noteq> {}"
    then obtain x k' where "x \<in> set (F k)" "k' \<in> set ks" "x \<in> set (F k')"
      by auto
    with Cons.prems(3) [of k x] Cons.prems(3) [of k' x] have "k = k'"
      by simp
    with \<open>k' \<in> set ks\<close> Cons.prems(1) show False by simp
  qed
  ultimately show ?case by simp
qed

lemma in_concat_map:
  "x \<in> set (concat (map F ks)) \<longleftrightarrow> (\<exists>k \<in> set ks. x \<in> set (F k))"
  by auto

lemma distinct_concat_filter:
  assumes "distinct (concat xss)"
  shows "distinct (concat (filter P xss))"
  using assms by (induction xss) auto

lemma set_cards_member:
  assumes "x \<in> set (set_cards ph r)"
  shows "x \<in> set (sorted_hand ph) \<and> fst (snd x) = r"
proof -
  from assms have "x \<in> set (map (\<lambda>(i, s). (i, (r, s)))
                     (first_per_suit {} (rank_cards (sorted_hand ph) r)))"
    unfolding set_cards_eq by (rule in_set_takeD)
  then obtain i s where x: "x = (i, (r, s))"
    and "(i, s) \<in> set (first_per_suit {} (rank_cards (sorted_hand ph) r))"
    by auto
  then have "(i, s) \<in> set (rank_cards (sorted_hand ph) r)"
    using first_per_suit_set by blast
  then have "(i, (r, s)) \<in> set (sorted_hand ph)"
    by (auto simp: rank_cards_def)
  with x show ?thesis by simp
qed

lemma set_cards_distinct: "distinct (set_cards ph r)"
proof -
  have "distinct (map snd (set_cards ph r))"
    unfolding set_cards_meld
    by (simp add: distinct_map inj_on_def distinct_take)
  then show ?thesis
    by (simp add: distinct_map)
qed

lemma indexed_sets_distinct: "distinct (concat (indexed_sets (sorted_hand ph)))"
  unfolding indexed_sets_eq
proof (rule distinct_concat_keyed [where key = "\<lambda>x. fst (snd x)"])
  show "distinct (filter (\<lambda>r. 3 \<le> card (suits_of_rank ph r))
          (sorted_list_of_set (fst ` set ph)))"
    by simp
  show "distinct (set_cards ph k)" for k
    by (rule set_cards_distinct)
  show "fst (snd x) = k" if "x \<in> set (set_cards ph k)" for k x
    using set_cards_member [OF that] by simp
qed

lemma indexed_sets_member:
  assumes "x \<in> set (concat (indexed_sets (sorted_hand ph)))"
  shows "x \<in> set (sorted_hand ph)"
proof -
  from assms obtain r where "x \<in> set (set_cards ph r)"
    unfolding indexed_sets_eq in_concat_map by blast
  from set_cards_member [OF this] show ?thesis by simp
qed

lemma suit_cards_member:
  "(i, r) \<in> set (suit_cards sh M s) \<longleftrightarrow> (i, (r, s)) \<in> set sh \<and> i \<notin> M"
  by (force simp: suit_cards_def)

lemma suit_cards_distinct:
  assumes "distinct sh"
  shows "distinct (suit_cards sh M s)"
proof -
  let ?ys = "filter (\<lambda>x. snd (snd x) = s) (filter (\<lambda>x. fst x \<notin> M) sh)"
  have "distinct ?ys" using assms by simp
  moreover have "inj_on (\<lambda>x. (fst x, fst (snd x))) (set ?ys)"
    by (rule inj_onI) (auto simp: prod_eq_iff)
  ultimately show ?thesis
    unfolding suit_cards_def by (simp add: distinct_map)
qed

lemma run_cards_eq:
  "run_cards sh M s =
     map (map (\<lambda>(idx, rank). (idx, (rank, s))))
       (filter (\<lambda>b. 3 \<le> length b) (segs (sort_key snd (suit_cards sh M s))))"
  unfolding run_cards_def by (rule run_cards_of_segs)

lemma run_cards_concat:
  "concat (run_cards sh M s) =
     map (\<lambda>(idx, rank). (idx, (rank, s)))
       (concat (filter (\<lambda>b. 3 \<le> length b) (segs (sort_key snd (suit_cards sh M s)))))"
  unfolding run_cards_eq by (simp add: map_concat)

lemma run_cards_member:
  assumes "x \<in> set (concat (run_cards sh M s))"
  shows "x \<in> set sh \<and> fst x \<notin> M \<and> snd (snd x) = s"
proof -
  from assms obtain i r b where x: "x = (i, (r, s))"
    and b: "b \<in> set (segs (sort_key snd (suit_cards sh M s)))" and m: "(i, r) \<in> set b"
    unfolding run_cards_concat by auto
  from b m have "(i, r) \<in> set (concat (segs (sort_key snd (suit_cards sh M s))))"
    by auto
  then have "(i, r) \<in> set (suit_cards sh M s)"
    by (simp add: concat_segs)
  with x show ?thesis
    by (simp add: suit_cards_member)
qed

lemma run_cards_distinct:
  assumes "distinct sh"
  shows "distinct (concat (run_cards sh M s))"
proof -
  let ?cards = "sort_key snd (suit_cards sh M s)"
  have "distinct (concat (segs ?cards))"
    using suit_cards_distinct [OF assms, of M s] by (simp add: concat_segs)
  then have d: "distinct (concat (filter (\<lambda>b. 3 \<le> length b) (segs ?cards)))"
    by (rule distinct_concat_filter)
  have i: "inj_on (\<lambda>(idx, rank). (idx, (rank, s))) A" for A :: "(nat \<times> nat) set"
    by (auto simp: inj_on_def)
  show ?thesis
    unfolding run_cards_concat by (simp only: distinct_map d i simp_thms)
qed

lemma concat_concat_map:
  "concat (concat (map F ks)) = concat (map (\<lambda>k. concat (F k)) ks)"
  by (induction ks) simp_all

lemma indexed_runs_concat:
  "concat (indexed_runs sh M) =
     concat (map (\<lambda>s. concat (run_cards sh M s)) (map fst (suit_groups sh M)))"
  unfolding indexed_runs_eq run_cards_def [symmetric]
  by (rule concat_concat_map)

lemma indexed_runs_member:
  assumes "x \<in> set (concat (indexed_runs sh M))"
  shows "x \<in> set sh \<and> fst x \<notin> M"
proof -
  from assms obtain s where "x \<in> set (concat (run_cards sh M s))"
    unfolding indexed_runs_concat in_concat_map by blast
  from run_cards_member [OF this] show ?thesis by simp
qed

lemma indexed_runs_distinct:
  assumes "distinct sh"
  shows "distinct (concat (indexed_runs sh M))"
  unfolding indexed_runs_concat
proof (rule distinct_concat_keyed [where key = "\<lambda>x. snd (snd x)"])
  show "distinct (map fst (suit_groups sh M))"
    by (rule suit_groups_keys_distinct)
  show "distinct (concat (run_cards sh M k))" for k
    by (rule run_cards_distinct [OF assms])
  show "snd (snd x) = k" if "x \<in> set (concat (run_cards sh M k))" for k x
    using run_cards_member [OF that] by simp
qed

lemma indexed_melds_member:
  assumes "x \<in> set (concat (indexed_melds ph))"
  shows "x \<in> set (sorted_hand ph)"
proof -
  from assms have "x \<in> set (concat (indexed_sets (sorted_hand ph))) \<or>
      x \<in> set (concat (indexed_runs (sorted_hand ph)
                   (set (map fst (concat (indexed_sets (sorted_hand ph)))))))"
    unfolding indexed_melds_def by (simp only: concat_append set_append Un_iff)
  then show ?thesis
    by (blast dest: indexed_sets_member indexed_runs_member)
qed

lemma indexed_melds_distinct: "distinct (concat (indexed_melds ph))"
proof -
  let ?sh = "sorted_hand ph"
  let ?M = "set (map fst (concat (indexed_sets ?sh)))"
  have "set (concat (indexed_sets ?sh)) \<inter> set (concat (indexed_runs ?sh ?M)) = {}"
  proof (rule ccontr)
    assume "set (concat (indexed_sets ?sh)) \<inter> set (concat (indexed_runs ?sh ?M)) \<noteq> {}"
    then obtain x where a: "x \<in> set (concat (indexed_sets ?sh))"
      and b: "x \<in> set (concat (indexed_runs ?sh ?M))"
      by blast
    from a have "fst x \<in> ?M"
      by (metis image_eqI list.set_map)
    with indexed_runs_member [OF b] show False by blast
  qed
  then show ?thesis
    unfolding indexed_melds_def concat_append distinct_append
    using indexed_sets_distinct [of ph] indexed_runs_distinct [OF sorted_hand_distinct, of ph ?M]
    by blast
qed

lemma indexed_melds_distinct_idx: "distinct (map fst (concat (indexed_melds ph)))"
proof -
  have "set (concat (indexed_melds ph)) \<subseteq> set (sorted_hand ph)"
    using indexed_melds_member by blast
  then have "inj_on fst (set (concat (indexed_melds ph)))"
    by (rule inj_on_subset [OF sorted_hand_inj])
  with indexed_melds_distinct show ?thesis
    by (simp add: distinct_map)
qed

lemma sorted_hand_inj_card:
  assumes "distinct ph"
  shows "inj_on snd (set (sorted_hand ph))"
proof (rule inj_onI)
  fix x y
  assume x: "x \<in> set (sorted_hand ph)" and y: "y \<in> set (sorted_hand ph)"
    and e: "snd x = snd y"
  from x y have "fst x < length ph" "ph ! fst x = snd x" "fst y < length ph" "ph ! fst y = snd y"
    using sorted_hand_member [of "fst x" "snd x" ph] sorted_hand_member [of "fst y" "snd y" ph]
    by simp_all
  with e assms have "fst x = fst y"
    by (metis nth_eq_iff_index_eq)
  with e show "x = y"
    by (simp add: prod_eq_iff)
qed

lemma find_melds_partition:
  assumes "distinct ph"
  shows "fst (find_melds ph) = {i. i < length ph \<and> ph ! i \<in> set (concat (snd (find_melds ph)))}"
    and "distinct (concat (snd (find_melds ph)))"
proof -
  let ?IM = "concat (indexed_melds ph)"
  have melds: "concat (snd (find_melds ph)) = map snd ?IM"
    by (simp add: find_melds_indexed map_concat)
  have sub: "set ?IM \<subseteq> set (sorted_hand ph)"
    using indexed_melds_member by blast
  have inj: "inj_on snd (set ?IM)"
    by (rule inj_on_subset [OF sorted_hand_inj_card [OF assms] sub])
  show "distinct (concat (snd (find_melds ph)))"
    unfolding melds using indexed_melds_distinct inj by (simp add: distinct_map)
  show "fst (find_melds ph) = {i. i < length ph \<and> ph ! i \<in> set (concat (snd (find_melds ph)))}"
  proof (rule set_eqI)
    fix i
    have "i \<in> fst (find_melds ph) \<longleftrightarrow> (\<exists>c. (i, c) \<in> set ?IM)"
      by (force simp: find_melds_indexed)
    also have "\<dots> \<longleftrightarrow> i < length ph \<and> ph ! i \<in> snd ` set ?IM"
    proof
      assume "\<exists>c. (i, c) \<in> set ?IM"
      then obtain c where c: "(i, c) \<in> set ?IM" by blast
      with sub have "(i, c) \<in> set (sorted_hand ph)" by blast
      then have "i < length ph" "c = ph ! i"
        by (simp_all add: sorted_hand_member)
      with c show "i < length ph \<and> ph ! i \<in> snd ` set ?IM"
        by force
    next
      assume r: "i < length ph \<and> ph ! i \<in> snd ` set ?IM"
      then obtain j where j: "(j, ph ! i) \<in> set ?IM" by force
      with sub have "(j, ph ! i) \<in> set (sorted_hand ph)" by blast
      then have "j < length ph" "ph ! i = ph ! j"
        by (simp_all add: sorted_hand_member)
      with r assms have "j = i"
        by (simp add: nth_eq_iff_index_eq)
      with j show "\<exists>c. (i, c) \<in> set ?IM" by blast
    qed
    finally show "i \<in> fst (find_melds ph) \<longleftrightarrow>
        i \<in> {i. i < length ph \<and> ph ! i \<in> set (concat (snd (find_melds ph)))}"
      unfolding melds by simp
  qed
qed

lemma unmatched_cards_member:
  "c \<in> set (unmatched_cards ph) \<longleftrightarrow>
     (\<exists>i. (i, c) \<in> set (sorted_hand ph) \<and> i \<notin> fst (find_sets (sorted_hand ph)))"
  by (force simp: unmatched_cards_def)

lemma suit_cards_ranks:
  "r \<in> snd ` set (suit_cards (sorted_hand ph) (fst (find_sets (sorted_hand ph))) s)
     \<longleftrightarrow> (r, s) \<in> set (unmatched_cards ph)"
proof -
  have "r \<in> snd ` set (suit_cards (sorted_hand ph) (fst (find_sets (sorted_hand ph))) s)
      \<longleftrightarrow> (\<exists>i. (i, r) \<in> set (suit_cards (sorted_hand ph) (fst (find_sets (sorted_hand ph))) s))"
    by force
  then show ?thesis
    by (simp add: suit_cards_member unmatched_cards_member)
qed

lemma suit_cards_strict:
  assumes "distinct ph"
  shows "sorted_wrt (<) (map snd (sort_key snd (suit_cards (sorted_hand ph) M s)))"
proof -
  let ?cs = "suit_cards (sorted_hand ph) M s"
  have inj: "inj_on snd (set ?cs)"
  proof (rule inj_onI)
    fix x y
    assume x: "x \<in> set ?cs" and y: "y \<in> set ?cs" and e: "snd x = snd y"
    from x have "(fst x, (snd x, s)) \<in> set (sorted_hand ph)"
      using suit_cards_member [of "fst x" "snd x" "sorted_hand ph" M s] by simp
    moreover from y have "(fst y, (snd y, s)) \<in> set (sorted_hand ph)"
      using suit_cards_member [of "fst y" "snd y" "sorted_hand ph" M s] by simp
    moreover have "snd (fst x, (snd x, s)) = snd (fst y, (snd y, s))"
      using e by simp
    ultimately have "(fst x, (snd x, s)) = (fst y, (snd y, s))"
      using sorted_hand_inj_card [OF assms] by (meson inj_onD)
    then show "x = y"
      by (simp add: prod_eq_iff)
  qed
  have "distinct ?cs"
    by (rule suit_cards_distinct) (rule sorted_hand_distinct)
  with inj have "distinct (map snd ?cs)"
    by (simp add: distinct_map)
  then have "distinct (map snd (sort_key snd ?cs))"
    by (metis distinct_map distinct_sort set_sort)
  moreover have "sorted (map snd (sort_key snd ?cs))"
    by (rule sorted_sort_key)
  ultimately show ?thesis
    by (simp only: strict_sorted_iff)
qed

lemma run_melds_member:
  "m \<in> set (run_melds ph) \<longleftrightarrow>
     (\<exists>s b. s \<in> set (map fst (suit_groups (sorted_hand ph) (fst (find_sets (sorted_hand ph))))) \<and>
            b \<in> set (segs (sort_key snd
                   (suit_cards (sorted_hand ph) (fst (find_sets (sorted_hand ph))) s))) \<and>
            3 \<le> length b \<and> m = map (\<lambda>r. (r, s)) (map snd b))"
proof -
  let ?sh = "sorted_hand ph"
  let ?M = "fst (find_sets ?sh)"
  define K where "K = map fst (suit_groups ?sh ?M)"
  have f: "snd \<circ> (\<lambda>(idx, rank). (idx, (rank, s))) = (\<lambda>r. (r, s)) \<circ> snd"
    for s :: string
    by (auto simp: fun_eq_iff)
  have "run_melds ph = map (map snd) (concat (map (run_cards ?sh ?M) K))"
    unfolding run_melds_indexed indexed_runs_eq run_cards_def [symmetric] K_def ..
  then have "m \<in> set (run_melds ph) \<longleftrightarrow>
      (\<exists>s \<in> set K. \<exists>x \<in> set (run_cards ?sh ?M s). m = map snd x)"
    by auto
  also have "\<dots> \<longleftrightarrow>
      (\<exists>s \<in> set K. \<exists>b \<in> set (segs (sort_key snd (suit_cards ?sh ?M s))).
           3 \<le> length b \<and> m = map (\<lambda>r. (r, s)) (map snd b))"
    unfolding run_cards_eq by (auto simp: f)
  finally show ?thesis
    unfolding K_def by blast
qed

lemma segs_member_cover:
  assumes "x \<in> set xs"
  shows "\<exists>b \<in> set (segs xs). x \<in> set b"
proof -
  from assms have "x \<in> set (concat (segs xs))"
    by (simp only: concat_segs)
  then show ?thesis by auto
qed

lemma upt_block_eq:
  fixes lo n h l :: nat
  assumes "h \<le> lo" and "lo < h + l"
    and "h < lo \<Longrightarrow> False"
    and "h + l < lo + n \<Longrightarrow> False"
    and "lo + n < h + l \<Longrightarrow> False"
  shows "h = lo \<and> l = n"
  using assms by (metis add_left_cancel le_neq_implies_less linorder_neqE_nat)

lemma run_meld_is_block:
  assumes "distinct ph" and "m \<in> set (run_melds ph)"
  shows "\<exists>suit lo n. run_block ph suit lo n \<and> m = map (\<lambda>r. (r, suit)) [lo..<lo + n]"
proof -
  let ?sh = "sorted_hand ph"
  let ?M = "fst (find_sets ?sh)"
  from assms(2) obtain s b where
    b: "b \<in> set (segs (sort_key snd (suit_cards ?sh ?M s)))" and
    len: "3 \<le> length b" and m: "m = map (\<lambda>r. (r, s)) (map snd b)"
    unfolding run_melds_member by blast
  let ?cards = "sort_key snd (suit_cards ?sh ?M s)"
  have ranks: "r \<in> snd ` set ?cards \<longleftrightarrow> (r, s) \<in> set (unmatched_cards ph)" for r
    using suit_cards_ranks [of r ph s] by simp
  from segs_blocks [OF suit_cards_strict [OF assms(1)] b]
  have rb: "rank_block ?cards b" .
  define lo where "lo = snd (hd b)"
  define n where "n = length b"
  from rb have sub: "set b \<subseteq> set ?cards"
    and form: "map snd b = [lo..<lo + n]"
    and top: "lo + n \<notin> snd ` set ?cards"
    and bot: "\<forall>r \<in> snd ` set ?cards. r + 1 \<noteq> lo"
    unfolding rank_block_def lo_def n_def by blast+
  have inside: "(r, s) \<in> set (unmatched_cards ph)" if "lo \<le> r \<and> r < lo + n" for r
  proof -
    from that have "r \<in> set [lo..<lo + n]" by simp
    then have "r \<in> set (map snd b)" by (simp only: form)
    then have "r \<in> snd ` set b" by simp
    with sub have "r \<in> snd ` set ?cards" by blast
    then show ?thesis by (simp only: ranks)
  qed
  have above: "(lo + n, s) \<notin> set (unmatched_cards ph)"
    using top by (simp only: ranks) simp
  have below: "(r, s) \<notin> set (unmatched_cards ph)" if "r + 1 = lo" for r
  proof
    assume "(r, s) \<in> set (unmatched_cards ph)"
    then have "r \<in> snd ` set ?cards" by (simp only: ranks)
    with bot that show False by blast
  qed
  have "run_block ph s lo n"
    unfolding run_block_def using len inside above below n_def by blast
  moreover have "m = map (\<lambda>r. (r, s)) [lo..<lo + n]"
    using m by (simp only: form)
  ultimately show ?thesis by blast
qed

lemma block_is_run_meld:
  assumes "distinct ph" and "run_block ph suit lo n"
  shows "map (\<lambda>r. (r, suit)) [lo..<lo + n] \<in> set (run_melds ph)"
proof -
  let ?sh = "sorted_hand ph"
  let ?M = "fst (find_sets ?sh)"
  let ?cards = "sort_key snd (suit_cards ?sh ?M suit)"
  have ranks: "r \<in> snd ` set ?cards \<longleftrightarrow> (r, suit) \<in> set (unmatched_cards ph)" for r
    using suit_cards_ranks [of r ph suit] by simp
  from assms(2) have n3: "3 \<le> n"
    and inside: "\<And>r. lo \<le> r \<and> r < lo + n \<Longrightarrow> (r, suit) \<in> set (unmatched_cards ph)"
    and above: "(lo + n, suit) \<notin> set (unmatched_cards ph)"
    and below: "\<And>r. r + 1 = lo \<Longrightarrow> (r, suit) \<notin> set (unmatched_cards ph)"
    unfolding run_block_def by blast+
  from n3 have "lo \<le> lo \<and> lo < lo + n" by simp
  from inside [OF this] have "lo \<in> snd ` set ?cards"
    by (simp only: ranks)
  then obtain x where x: "x \<in> set ?cards" and xr: "snd x = lo" by auto
  from x have "(fst x, snd x) \<in> set (suit_cards ?sh ?M suit)" by simp
  then have "(fst x, (snd x, suit)) \<in> set ?sh \<and> fst x \<notin> ?M"
    using suit_cards_member [of "fst x" "snd x" ?sh ?M suit] by blast
  then have "(fst x, (snd x, suit)) \<in> set ?sh" "fst x \<notin> ?M"
    by blast+
  then have "(fst x, (snd x, suit)) \<in> {y \<in> set ?sh. fst y \<notin> ?M}" by simp
  then have "snd (snd (fst x, (snd x, suit))) \<in> (\<lambda>y. snd (snd y)) ` {y \<in> set ?sh. fst y \<notin> ?M}"
    by (rule imageI)
  then have key: "suit \<in> set (map fst (suit_groups ?sh ?M))"
    unfolding suit_groups_keys by simp
  from segs_member_cover [OF x] obtain b where
    b: "b \<in> set (segs ?cards)" and xb: "x \<in> set b"
    by blast
  from segs_blocks [OF suit_cards_strict [OF assms(1)] b]
  have rb: "rank_block ?cards b" .
  define h where "h = snd (hd b)"
  define l where "l = length b"
  from rb have sub: "set b \<subseteq> set ?cards"
    and form: "map snd b = [h..<h + l]"
    and top: "h + l \<notin> snd ` set ?cards"
    unfolding rank_block_def h_def l_def by blast+
  have in_b: "r \<in> snd ` set ?cards" if "h \<le> r" "r < h + l" for r
  proof -
    from that have "r \<in> set [h..<h + l]" by simp
    then have "r \<in> set (map snd b)" by (simp only: form)
    then have "r \<in> snd ` set b" by simp
    with sub show ?thesis by blast
  qed
  from xb xr have "lo \<in> snd ` set b" by force
  then have "lo \<in> set (map snd b)" by simp
  then have "lo \<in> set [h..<h + l]" by (simp only: form)
  then have hl: "h \<le> lo" "lo < h + l" by simp_all
  have c1: False if "h < lo"
  proof -
    from that obtain r where r: "r + 1 = lo" "h \<le> r"
      by (metis Suc_eq_plus1 Suc_leI Suc_pred' le_imp_less_Suc less_Suc_eq_le
          less_nat_zero_code not_gr_zero)
    with hl have "r < h + l" by simp
    from in_b [OF r(2) this] have "(r, suit) \<in> set (unmatched_cards ph)"
      by (simp only: ranks)
    with below [OF r(1)] show False by blast
  qed
  have c2: False if "h + l < lo + n"
  proof -
    from hl that have "lo \<le> h + l \<and> h + l < lo + n" by simp
    from inside [OF this] have "h + l \<in> snd ` set ?cards"
      by (simp only: ranks)
    with top show False by blast
  qed
  have c3: False if "lo + n < h + l"
  proof -
    from hl have "h \<le> lo + n" by simp
    from in_b [OF this that] have "(lo + n, suit) \<in> set (unmatched_cards ph)"
      by (simp only: ranks)
    with above show False by blast
  qed
  from upt_block_eq [OF hl c1 c2 c3] have eq: "h = lo" "l = n" by blast+
  from form eq have f: "map snd b = [lo..<lo + n]" by simp
  from eq n3 have len: "3 \<le> length b" by (simp add: l_def)
  have "map (\<lambda>r. (r, suit)) [lo..<lo + n] = map (\<lambda>r. (r, suit)) (map snd b)"
    by (simp only: f)
  with key b len show ?thesis
    unfolding run_melds_member by blast
qed

lemma run_melds_distinct:
  assumes "distinct ph"
  shows "distinct (concat (run_melds ph))"
proof -
  let ?sh = "sorted_hand ph"
  let ?IR = "concat (indexed_runs ?sh (fst (find_sets ?sh)))"
  have c: "concat (run_melds ph) = map snd ?IR"
    by (simp add: run_melds_indexed map_concat)
  have "set ?IR \<subseteq> set ?sh"
    using indexed_runs_member by blast
  then have "inj_on snd (set ?IR)"
    by (rule inj_on_subset [OF sorted_hand_inj_card [OF assms]])
  moreover have "distinct ?IR"
    by (rule indexed_runs_distinct) (rule sorted_hand_distinct)
  ultimately show ?thesis
    unfolding c by (simp add: distinct_map)
qed

lemma block_consecutive:
  assumes "Suc k < length (map (\<lambda>r. (r, suit :: string)) [lo..<lo + n])"
  shows "map (\<lambda>r. (r, suit)) [lo..<lo + n] ! Suc k =
           (fst (map (\<lambda>r. (r, suit)) [lo..<lo + n] ! k) + 1,
            snd (map (\<lambda>r. (r, suit)) [lo..<lo + n] ! k))"
  using assms by simp

lemma unmatched_cards_subset: "set (unmatched_cards ph) \<subseteq> set ph"
proof
  fix c
  assume "c \<in> set (unmatched_cards ph)"
  then obtain i where "(i, c) \<in> set (sorted_hand ph)"
    unfolding unmatched_cards_member by blast
  then have "c \<in> snd ` set (sorted_hand ph)"
    by force
  then show "c \<in> set ph"
    by (simp only: sorted_hand_cards)
qed

lemma parsed_hand_rank_range:
  "\<forall>c \<in> set (List.map_filter parse_card hand). 1 \<le> fst c \<and> fst c \<le> 13"
proof
  fix c
  assume "c \<in> set (List.map_filter parse_card hand)"
  then obtain t where "parse_card t = Some c"
    by (auto simp: List.map_filter_def)
  then show "1 \<le> fst c \<and> fst c \<le> 13"
    using parse_card_rank_range [of t "fst c" "snd c"] by simp
qed

lemma run_meld_king_ace:
  assumes "distinct ph" and "\<forall>c \<in> set ph. 1 \<le> fst c \<and> fst c \<le> 13"
    and "m \<in> set (run_melds ph)"
  shows "((\<exists>s. (13, s) \<in> set m) \<and> (\<exists>s. (1, s) \<in> set m)) \<longleftrightarrow>
         (\<exists>suit. m = map (\<lambda>r. (r, suit)) [1..<14])"
proof
  assume ka: "(\<exists>s. (13, s) \<in> set m) \<and> (\<exists>s. (1, s) \<in> set m)"
  from run_meld_is_block [OF assms(1) assms(3)] obtain suit lo n
    where rb: "run_block ph suit lo n" and m: "m = map (\<lambda>r. (r, suit)) [lo..<lo + n]"
    by blast
  from rb have n3: "3 \<le> n"
    and inside: "\<And>r. lo \<le> r \<and> r < lo + n \<Longrightarrow> (r, suit) \<in> set (unmatched_cards ph)"
    unfolding run_block_def by blast+
  have inhand: "(r, suit) \<in> set ph" if "lo \<le> r \<and> r < lo + n" for r
    using inside [OF that] unmatched_cards_subset [of ph] by blast
  from n3 have "(lo, suit) \<in> set ph"
    by (intro inhand) simp
  with assms(2) have lo1: "1 \<le> lo" by force
  from n3 have "(lo + n - 1, suit) \<in> set ph"
    by (intro inhand) simp
  with assms(2) have "lo + n - 1 \<le> 13" by force
  then have hi: "lo + n \<le> 14" by simp
  from ka have "13 \<in> set [lo..<lo + n]" "1 \<in> set [lo..<lo + n]"
    unfolding m by auto
  then have "13 < lo + n" "lo \<le> 1" by simp_all
  with lo1 hi have "lo = 1" "lo + n = 14" by simp_all
  then have "m = map (\<lambda>r. (r, suit)) [1..<14]"
    unfolding m by simp
  then show "\<exists>suit. m = map (\<lambda>r. (r, suit)) [1..<14]" ..
next
  assume "\<exists>suit. m = map (\<lambda>r. (r, suit)) [1..<14]"
  then obtain suit where m: "m = map (\<lambda>r. (r, suit)) [1..<14]" ..
  have "(13, suit) \<in> set m" "(1, suit) \<in> set m"
    unfolding m by simp_all
  then show "(\<exists>s. (13, s) \<in> set m) \<and> (\<exists>s. (1, s) \<in> set m)" by blast
qed

text \<open>
  C3 (runs), as amended. The melds that \<open>find_melds\<close> returns are the set melds of phase 1
  followed by the run melds of phase 2. For a hand without duplicate cards, the run
  melds are exactly the maximal blocks of at least three consecutive ranks of one suit among
  the cards that phase 1 left unmatched, each block as one meld; no card is in two run
  melds; and inside a run meld every card has the suit of its predecessor and the next
  rank, so an Ace (rank 1, the lowest) is never placed after a King (rank 13). The cards
  that \<open>parse_card\<close> yields have ranks from 1 to 13, and in a hand of such cards a run meld
  holds both a King and an Ace exactly when it is a whole suit, the thirteen cards from
  Ace to King in rank order.
\<close>

theorem run_melds_maximal_blocks:
  assumes "distinct ph"
  shows "snd (find_melds ph) = set_melds ph @ run_melds ph \<and>
         set (run_melds ph) =
           {map (\<lambda>r. (r, suit)) [lo..<lo + n] | suit lo n. run_block ph suit lo n} \<and>
         distinct (concat (run_melds ph)) \<and>
         (\<forall>m \<in> set (run_melds ph). \<forall>k. Suc k < length m \<longrightarrow>
            m ! Suc k = (fst (m ! k) + 1, snd (m ! k))) \<and>
         ((\<exists>hand. ph = List.map_filter parse_card hand) \<longrightarrow>
            (\<forall>c \<in> set ph. 1 \<le> fst c \<and> fst c \<le> 13)) \<and>
         ((\<forall>c \<in> set ph. 1 \<le> fst c \<and> fst c \<le> 13) \<longrightarrow>
            (\<forall>m \<in> set (run_melds ph).
               ((\<exists>s. (13, s) \<in> set m) \<and> (\<exists>s. (1, s) \<in> set m)) \<longleftrightarrow>
               (\<exists>suit. m = map (\<lambda>r. (r, suit)) [1..<14])))"
proof -
  have eq: "set (run_melds ph) =
           {map (\<lambda>r. (r, suit)) [lo..<lo + n] | suit lo n. run_block ph suit lo n}"
  proof (rule set_eqI)
    fix m
    show "m \<in> set (run_melds ph) \<longleftrightarrow>
          m \<in> {map (\<lambda>r. (r, suit)) [lo..<lo + n] | suit lo n. run_block ph suit lo n}"
      using run_meld_is_block [OF assms, of m] block_is_run_meld [OF assms] by blast
  qed
  have adj: "\<forall>m \<in> set (run_melds ph). \<forall>k. Suc k < length m \<longrightarrow>
            m ! Suc k = (fst (m ! k) + 1, snd (m ! k))"
  proof (intro ballI allI impI)
    fix m k
    assume m: "m \<in> set (run_melds ph)" and k: "Suc k < length m"
    from run_meld_is_block [OF assms m] obtain suit lo n
      where "m = map (\<lambda>r. (r, suit)) [lo..<lo + n]"
      by blast
    with k block_consecutive [of k suit lo n]
    show "m ! Suc k = (fst (m ! k) + 1, snd (m ! k))" by simp
  qed
  have parsed: "(\<exists>hand. ph = List.map_filter parse_card hand) \<longrightarrow>
            (\<forall>c \<in> set ph. 1 \<le> fst c \<and> fst c \<le> 13)"
  proof
    assume "\<exists>hand. ph = List.map_filter parse_card hand"
    then obtain hand where h: "ph = List.map_filter parse_card hand" ..
    show "\<forall>c \<in> set ph. 1 \<le> fst c \<and> fst c \<le> 13"
      unfolding h by (rule parsed_hand_rank_range)
  qed
  have ka: "(\<forall>c \<in> set ph. 1 \<le> fst c \<and> fst c \<le> 13) \<longrightarrow>
            (\<forall>m \<in> set (run_melds ph).
               ((\<exists>s. (13, s) \<in> set m) \<and> (\<exists>s. (1, s) \<in> set m)) \<longleftrightarrow>
               (\<exists>suit. m = map (\<lambda>r. (r, suit)) [1..<14]))"
  proof (intro impI ballI)
    fix m
    assume "\<forall>c \<in> set ph. 1 \<le> fst c \<and> fst c \<le> 13" and "m \<in> set (run_melds ph)"
    then show "((\<exists>s. (13, s) \<in> set m) \<and> (\<exists>s. (1, s) \<in> set m)) \<longleftrightarrow>
               (\<exists>suit. m = map (\<lambda>r. (r, suit)) [1..<14])"
      by (rule run_meld_king_ace [OF assms])
  qed
  from find_melds_phases [of ph] eq run_melds_distinct [OF assms] adj parsed ka
  show ?thesis
    by (intro conjI)
qed

lemma set_meld_order:
  assumes "m \<in> set (set_melds ph)"
  shows "sorted_wrt (<) (map snd m) \<and> 3 \<le> length m \<and> length m \<le> 4 \<and>
         (\<exists>r. \<forall>c \<in> set m. fst c = r)"
proof -
  from assms obtain r where c3: "3 \<le> card (suits_of_rank ph r)"
    and m: "m = map (Pair r) (take 4 (sorted_list_of_set (suits_of_rank ph r)))"
    unfolding set_melds_eq by auto
  let ?L = "sorted_list_of_set (suits_of_rank ph r)"
  have "sorted (take 4 ?L)" "distinct (take 4 ?L)"
    by (simp_all add: sorted_wrt_take)
  then have "sorted_wrt (<) (take 4 ?L)"
    by (simp only: strict_sorted_iff)
  moreover have "map snd m = take 4 ?L"
    unfolding m by (simp add: comp_def)
  moreover have "length m = min 4 (card (suits_of_rank ph r))"
    unfolding m using finite_suits_of_rank [of ph r] by (simp add: min.commute)
  moreover have "\<forall>c \<in> set m. fst c = r"
    unfolding m by auto
  ultimately show ?thesis
    using c3 by auto
qed

text \<open>
  C8 (sets), as amended. The melds that \<open>find_melds\<close> returns are the set melds of phase 1
  followed by the run melds of phase 2. Phase 1 emits, for the ranks in ascending order that the hand
  holds in at least three different suits, one set meld each: the rank paired with the
  first four of its suits in ascending order of the suit name as a string. So inside
  a set meld the suits ascend by name, and among the four suits of the deck that order
  is clubs, diamonds, hearts, spades.
\<close>

theorem set_melds_suit_name_order:
  "snd (find_melds ph) = set_melds ph @ run_melds ph \<and>
   set_melds ph =
     map (\<lambda>r. map (Pair r) (take 4 (sorted_list_of_set (suits_of_rank ph r))))
       (filter (\<lambda>r. 3 \<le> card (suits_of_rank ph r)) (sorted_list_of_set (fst ` set ph))) \<and>
   (\<forall>m \<in> set (set_melds ph).
      sorted_wrt (<) (map snd m) \<and> 3 \<le> length m \<and> length m \<le> 4 \<and>
      (\<exists>r. \<forall>c \<in> set m. fst c = r)) \<and>
   ''clubs'' < ''diamonds'' \<and> ''diamonds'' < ''hearts'' \<and> ''hearts'' < ''spades''"
proof -
  have o: "''clubs'' < ''diamonds''" "''diamonds'' < ''hearts''" "''hearts'' < ''spades''"
    by simp_all
  have b: "\<forall>m \<in> set (set_melds ph).
      sorted_wrt (<) (map snd m) \<and> 3 \<le> length m \<and> length m \<le> 4 \<and>
      (\<exists>r. \<forall>c \<in> set m. fst c = r)"
    using set_meld_order [of _ ph] by blast
  from find_melds_phases [of ph] set_melds_eq [of ph] b o show ?thesis
    by (intro conjI)
qed

lemma ex_set_melds:
  "set_melds [(13, ''hearts''), (13, ''diamonds''), (13, ''clubs'')] =
     [[(13, ''clubs''), (13, ''diamonds''), (13, ''hearts'')]]"
  by code_simp

theorem set_melds_suit_name_order_witness:
  "[(13, ''clubs''), (13, ''diamonds''), (13, ''hearts'')]
     \<in> set (set_melds [(13, ''hearts''), (13, ''diamonds''), (13, ''clubs'')]) \<and>
   sorted_wrt (<) (map snd [(13 :: nat, ''clubs''), (13, ''diamonds''), (13, ''hearts'')])"
proof -
  have m: "[(13, ''clubs''), (13, ''diamonds''), (13, ''hearts'')]
     \<in> set (set_melds [(13, ''hearts''), (13, ''diamonds''), (13, ''clubs'')])"
    unfolding ex_set_melds by simp
  with set_melds_suit_name_order [of "[(13, ''hearts''), (13, ''diamonds''), (13, ''clubs'')]"]
  show ?thesis by blast
qed

text \<open>
  C8 as stated fails: of the Kings of hearts, diamonds and clubs the set meld lists
  clubs, diamonds, hearts, not hearts, diamonds, clubs.
\<close>

theorem set_meld_not_in_enumeration_order:
  "set_melds [(13, ''hearts''), (13, ''diamonds''), (13, ''clubs'')] =
     [[(13, ''clubs''), (13, ''diamonds''), (13, ''hearts'')]] \<and>
   set_melds [(13, ''hearts''), (13, ''diamonds''), (13, ''clubs'')] \<noteq>
     [[(13, ''hearts''), (13, ''diamonds''), (13, ''clubs'')]]"
  unfolding ex_set_melds by simp

lemma ex_run_melds_full: "run_melds full_hearts = [full_hearts]"
  by code_simp

text \<open>
  C3 as stated fails in its last part: the thirteen hearts are one run meld, which
  contains the King and the Ace.
\<close>

theorem run_meld_with_king_and_ace:
  "distinct full_hearts \<and> run_melds full_hearts = [full_hearts] \<and>
   (13, ''hearts'') \<in> set full_hearts \<and> (1, ''hearts'') \<in> set full_hearts"
  using ex_run_melds_full by (simp add: full_hearts_def)

lemma ex_run_melds:
  "run_melds [(5, ''hearts''), (9, ''hearts''), (7, ''hearts''), (6, ''hearts'')] =
     [[(5, ''hearts''), (6, ''hearts''), (7, ''hearts'')]]"
  by code_simp

lemma ex_parse_hearts:
  "List.map_filter parse_card [''5-hearts'', ''9-hearts'', ''7-hearts'', ''6-hearts''] =
     [(5, ''hearts''), (9, ''hearts''), (7, ''hearts''), (6, ''hearts'')]"
  by code_simp

theorem run_melds_maximal_blocks_witness:
  "distinct [(5 :: nat, ''hearts''), (9, ''hearts''), (7, ''hearts''), (6, ''hearts'')] \<and>
   List.map_filter parse_card [''5-hearts'', ''9-hearts'', ''7-hearts'', ''6-hearts''] =
     [(5, ''hearts''), (9, ''hearts''), (7, ''hearts''), (6, ''hearts'')] \<and>
   list_all (\<lambda>c. 1 \<le> fst c \<and> fst c \<le> 13)
     [(5 :: nat, ''hearts''), (9, ''hearts''), (7, ''hearts''), (6, ''hearts'')] \<and>
   run_melds [(5, ''hearts''), (9, ''hearts''), (7, ''hearts''), (6, ''hearts'')] =
     [[(5, ''hearts''), (6, ''hearts''), (7, ''hearts'')]] \<and>
   (\<exists>suit lo n.
      [(5, ''hearts''), (6, ''hearts''), (7, ''hearts'')] = map (\<lambda>r. (r, suit)) [lo..<lo + n] \<and>
      run_block [(5, ''hearts''), (9, ''hearts''), (7, ''hearts''), (6, ''hearts'')] suit lo n) \<and>
   distinct full_hearts \<and> map fst full_hearts = [1..<14] \<and>
   full_hearts \<in> set (run_melds full_hearts) \<and>
   (13, ''hearts'') \<in> set full_hearts \<and> (1, ''hearts'') \<in> set full_hearts \<and>
   (\<exists>suit. full_hearts = map (\<lambda>r. (r, suit)) [1..<14])"
proof -
  let ?ph = "[(5 :: nat, ''hearts''), (9, ''hearts''), (7, ''hearts''), (6, ''hearts'')]"
  have d: "distinct ?ph" by simp
  note t = run_melds_maximal_blocks [OF d]
  have "[(5, ''hearts''), (6, ''hearts''), (7, ''hearts'')] \<in> set (run_melds ?ph)"
    unfolding ex_run_melds by simp
  with t have
    "[(5, ''hearts''), (6, ''hearts''), (7, ''hearts'')]
       \<in> {map (\<lambda>r. (r, suit)) [lo..<lo + n] | suit lo n. run_block ?ph suit lo n}"
    by blast
  then have blk: "\<exists>suit lo n.
      [(5, ''hearts''), (6, ''hearts''), (7, ''hearts'')] = map (\<lambda>r. (r, suit)) [lo..<lo + n] \<and>
      run_block ?ph suit lo n"
    by (simp only: mem_Collect_eq)
  have "\<exists>hand. ?ph = List.map_filter parse_card hand"
    by (rule exI [of _ "[''5-hearts'', ''9-hearts'', ''7-hearts'', ''6-hearts'']"])
      (simp only: ex_parse_hearts)
  with t [THEN conjunct2, THEN conjunct2, THEN conjunct2, THEN conjunct2, THEN conjunct1]
  have "\<forall>c \<in> set ?ph. 1 \<le> fst c \<and> fst c \<le> 13"
    by (rule mp)
  then have rng: "list_all (\<lambda>c. 1 \<le> fst c \<and> fst c \<le> 13) ?ph"
    by (simp only: list_all_iff)
  have df: "distinct full_hearts"
    by (simp add: full_hearts_def)
  have rf: "map fst full_hearts = [1..<14]"
    by (simp add: full_hearts_def upt_rec)
  have rngf: "\<forall>c \<in> set full_hearts. 1 \<le> fst c \<and> fst c \<le> 13"
    by (auto simp: full_hearts_def)
  have mem: "full_hearts \<in> set (run_melds full_hearts)"
    unfolding ex_run_melds_full by simp
  have k: "(13, ''hearts'') \<in> set full_hearts" and a: "(1, ''hearts'') \<in> set full_hearts"
    by (simp_all add: full_hearts_def)
  from run_melds_maximal_blocks [OF df, THEN conjunct2, THEN conjunct2, THEN conjunct2,
      THEN conjunct2, THEN conjunct2] rngf
  have "\<forall>m \<in> set (run_melds full_hearts).
      ((\<exists>s. (13, s) \<in> set m) \<and> (\<exists>s. (1, s) \<in> set m)) \<longleftrightarrow>
      (\<exists>suit. m = map (\<lambda>r. (r, suit)) [1..<14])"
    by (rule mp)
  then have "((\<exists>s. (13, s) \<in> set full_hearts) \<and> (\<exists>s. (1, s) \<in> set full_hearts)) \<longleftrightarrow>
      (\<exists>suit. full_hearts = map (\<lambda>r. (r, suit)) [1..<14])"
    using mem by (rule bspec)
  moreover from k a have "(\<exists>s. (13, s) \<in> set full_hearts) \<and> (\<exists>s. (1, s) \<in> set full_hearts)"
    by (intro conjI exI [of _ "''hearts''"])
  ultimately have whole: "\<exists>suit. full_hearts = map (\<lambda>r. (r, suit)) [1..<14]"
    by (rule iffD1)
  from d ex_parse_hearts rng ex_run_melds blk df rf mem k a whole show ?thesis
    by (intro conjI)
qed

lemma calculate_deadwood_zero_iff:
  "calculate_deadwood hand = 0 \<longleftrightarrow>
     (\<forall>i < length (List.map_filter parse_card hand).
        i \<in> fst (find_melds (List.map_filter parse_card hand)))"
proof -
  let ?ph = "List.map_filter parse_card hand"
  let ?A = "{i. i < length ?ph \<and> i \<notin> fst (find_melds ?ph)}"
  have nonneg: "0 \<le> card_points (fst (?ph ! i))" for i
    using card_points_pos [of "fst (?ph ! i)"] by linarith
  have "calculate_deadwood hand = 0 \<longleftrightarrow> (\<forall>i \<in> ?A. card_points (fst (?ph ! i)) = 0)"
    unfolding calculate_deadwood_points
    by (rule sum_nonneg_eq_0_iff) (simp_all add: nonneg)
  also have "\<dots> \<longleftrightarrow> ?A = {}"
  proof
    assume z: "\<forall>i \<in> ?A. card_points (fst (?ph ! i)) = 0"
    show "?A = {}"
    proof (rule ccontr)
      assume "?A \<noteq> {}"
      then obtain i where "i \<in> ?A" by blast
      with z have "card_points (fst (?ph ! i)) = 0" by blast
      with card_points_pos [of "fst (?ph ! i)"] show False by simp
    qed
  next
    assume "?A = {}"
    then show "\<forall>i \<in> ?A. card_points (fst (?ph ! i)) = 0" by blast
  qed
  also have "\<dots> \<longleftrightarrow> (\<forall>i < length ?ph. i \<in> fst (find_melds ?ph))"
    by blast
  finally show ?thesis .
qed

text \<open>
  C4 (partition). For a hand whose parsed cards are pairwise different, the matched
  set of \<open>find_melds\<close> is exactly the set of indices of the cards that occur in its melds,
  no card occurs twice in the melds, and an index outside the matched set has its card
  in no meld. The melds are the cards of lists of indexed cards of the hand in which no
  index occurs twice, and the matched set is the set of those indices. The deadwood
  is not negative, and it is 0 exactly when every index of the parsed hand is matched.
\<close>

theorem find_melds_partition_certificate:
  assumes "distinct (List.map_filter parse_card hand)"
  shows "fst (find_melds (List.map_filter parse_card hand)) =
           {i. i < length (List.map_filter parse_card hand) \<and>
               List.map_filter parse_card hand ! i
                 \<in> set (concat (snd (find_melds (List.map_filter parse_card hand))))} \<and>
         distinct (concat (snd (find_melds (List.map_filter parse_card hand)))) \<and>
         (\<forall>i < length (List.map_filter parse_card hand).
            i \<notin> fst (find_melds (List.map_filter parse_card hand)) \<longrightarrow>
            List.map_filter parse_card hand ! i
              \<notin> set (concat (snd (find_melds (List.map_filter parse_card hand))))) \<and>
         find_melds (List.map_filter parse_card hand) =
           (set (map fst (concat (indexed_melds (List.map_filter parse_card hand)))),
            map (map snd) (indexed_melds (List.map_filter parse_card hand))) \<and>
         distinct (map fst (concat (indexed_melds (List.map_filter parse_card hand)))) \<and>
         (\<forall>x \<in> set (concat (indexed_melds (List.map_filter parse_card hand))).
            fst x < length (List.map_filter parse_card hand) \<and>
            List.map_filter parse_card hand ! fst x = snd x) \<and>
         0 \<le> calculate_deadwood hand \<and>
         (calculate_deadwood hand = 0 \<longleftrightarrow>
            (\<forall>i < length (List.map_filter parse_card hand).
               i \<in> fst (find_melds (List.map_filter parse_card hand))))"
proof -
  let ?ph = "List.map_filter parse_card hand"
  note p = find_melds_partition [OF assms]
  have out: "\<forall>i < length ?ph. i \<notin> fst (find_melds ?ph) \<longrightarrow>
          ?ph ! i \<notin> set (concat (snd (find_melds ?ph)))"
    using p(1) by blast
  have idx: "\<forall>x \<in> set (concat (indexed_melds ?ph)). fst x < length ?ph \<and> ?ph ! fst x = snd x"
  proof
    fix x
    assume "x \<in> set (concat (indexed_melds ?ph))"
    then have "(fst x, snd x) \<in> set (sorted_hand ?ph)"
      using indexed_melds_member [of x ?ph] by simp
    then have "fst x < length ?ph \<and> snd x = ?ph ! fst x"
      by (simp only: sorted_hand_member)
    then show "fst x < length ?ph \<and> ?ph ! fst x = snd x"
      by simp
  qed
  from p(1) p(2) out find_melds_indexed [of ?ph] indexed_melds_distinct_idx [of ?ph] idx
    calculate_deadwood_nonneg [of hand] calculate_deadwood_zero_iff [of hand]
  show ?thesis
    by (intro conjI)
qed

theorem find_melds_partition_certificate_witness:
  "distinct (List.map_filter parse_card [''K-hearts'', ''K-diamonds'', ''K-clubs'', ''2-spades'']) \<and>
   distinct (concat (snd (find_melds
     (List.map_filter parse_card [''K-hearts'', ''K-diamonds'', ''K-clubs'', ''2-spades''])))) \<and>
   calculate_deadwood [''K-hearts'', ''K-diamonds'', ''K-clubs'', ''2-spades''] \<noteq> 0 \<and>
   \<not> (\<forall>i < length (List.map_filter parse_card
                     [''K-hearts'', ''K-diamonds'', ''K-clubs'', ''2-spades'']).
         i \<in> fst (find_melds (List.map_filter parse_card
                     [''K-hearts'', ''K-diamonds'', ''K-clubs'', ''2-spades''])))"
proof -
  let ?hand = "[''K-hearts'', ''K-diamonds'', ''K-clubs'', ''2-spades'']"
  have ph: "List.map_filter parse_card ?hand =
      [(13, ''hearts''), (13, ''diamonds''), (13, ''clubs''), (2, ''spades'')]"
    by (simp add: List.map_filter_def parse_eval)
  have d: "distinct (List.map_filter parse_card ?hand)"
    unfolding ph by simp
  have v: "calculate_deadwood ?hand = 2"
    by code_simp
  note t = find_melds_partition_certificate [OF d]
  from t have t2: "distinct (concat (snd (find_melds (List.map_filter parse_card ?hand))))"
    by blast
  from t have t5: "calculate_deadwood ?hand = 0 \<longleftrightarrow>
      (\<forall>i < length (List.map_filter parse_card ?hand).
         i \<in> fst (find_melds (List.map_filter parse_card ?hand)))"
    by blast
  from v have nz: "calculate_deadwood ?hand \<noteq> 0"
    by simp
  from d t2 nz t5 show ?thesis
    by blast
qed

end
